theory Spec2Isabelle
  imports Main "HOL-Library.Sublist"
begin

section \<open>Python values\<close>

text \<open>
  A Python \<open>str\<close> is a sequence of Unicode code points, so it is modelled as a list of
  natural numbers. The source's string literals are ASCII and are written with \<open>ascii\<close>.
\<close>

type_synonym ustring = "nat list"

definition ascii :: "string \<Rightarrow> ustring" where
  "ascii s = map of_char s"

text \<open>\<open>sep.join(xs)\<close>\<close>

fun join :: "ustring \<Rightarrow> ustring list \<Rightarrow> ustring" where
  "join sep [] = []"
| "join sep [x] = x"
| "join sep (x # y # ys) = x @ sep @ join sep (y # ys)"

text \<open>\<open>s.replace("\n", " ")\<close>\<close>

definition replace_newlines :: "ustring \<Rightarrow> ustring" where
  "replace_newlines s = map (\<lambda>c. if c = 10 then 32 else c) s"

text \<open>\<open>str(n)\<close> for an integer: decimal digits, with a minus sign when negative.\<close>

function str_nat :: "nat \<Rightarrow> ustring" where
  "str_nat n = (if n < 10 then [48 + n] else str_nat (n div 10) @ [48 + n mod 10])"
  by pat_completeness auto
termination
  by (relation "measure id") auto

declare str_nat.simps [simp del]

definition str_int :: "int \<Rightarrow> ustring" where
  "str_int i = (if i < 0 then 45 # str_nat (nat (- i)) else str_nat (nat i))"

text \<open>
  The interpreter's character tables, which the source reaches through \<open>str.strip\<close>,
  \<open>str.upper\<close> and the regular-expression class \<open>\d\<close>. They belong to the Python
  runtime, not to the repository, and are taken as parameters: \<open>isspace\<close> is the
  white-space test of \<open>strip\<close>, \<open>isdecimal\<close> the class \<open>\d\<close> of a \<open>str\<close> pattern
  (Unicode category Nd), \<open>upper\<close> the upper-casing of a whole string.
\<close>

record ucd =
  isspace :: "nat \<Rightarrow> bool"
  isdecimal :: "nat \<Rightarrow> bool"
  upper :: "ustring \<Rightarrow> ustring"

definition strip :: "ucd \<Rightarrow> ustring \<Rightarrow> ustring" where
  "strip U s = rev (dropWhile (isspace U) (rev (dropWhile (isspace U) s)))"

text \<open>\<open>datetime.now().strftime("%Y-%m-%d %H:%M:%S")\<close>\<close>

record datetime =
  dt_year :: nat
  dt_month :: nat
  dt_day :: nat
  dt_hour :: nat
  dt_minute :: nat
  dt_second :: nat

definition zpad :: "nat \<Rightarrow> ustring \<Rightarrow> ustring" where
  "zpad k s = replicate (k - length s) 48 @ s"

definition strftime :: "datetime \<Rightarrow> ustring" where
  "strftime d =
     zpad 4 (str_nat (dt_year d)) @ [45] @ zpad 2 (str_nat (dt_month d)) @ [45] @
     zpad 2 (str_nat (dt_day d)) @ [32] @ zpad 2 (str_nat (dt_hour d)) @ [58] @
     zpad 2 (str_nat (dt_minute d)) @ [58] @ zpad 2 (str_nat (dt_second d))"

section \<open>The file system and the world\<close>

text \<open>
  A path is resolved to a flag (absolute or relative to the working directory) and the list
  of its components: the text is split at \<open>/\<close>, and empty components and \<open>.\<close> are dropped.
  The store maps resolved paths to nodes. The root and the working directory always exist;
  a node counts only when every directory above it is there (\<open>walk\<close>). A text that ends
  with \<open>/\<close>, or whose last component is \<open>.\<close>, names a directory: the system follows its
  last name as it follows the names before it (\<open>wants_dir\<close>). Not modelled: \<open>..\<close>,
  symbolic links, permissions, limits on names, characters that a file name cannot hold
  (the null character, a surrogate), and the place of the working directory in the absolute
  tree. A file holds text; its size is counted in characters, which is zero exactly when
  the size in bytes is.
\<close>

type_synonym path = "bool \<times> ustring list"

datatype node = File ustring | Dir

type_synonym fs = "path \<Rightarrow> node option"

fun split_slash :: "ustring \<Rightarrow> ustring list" where
  "split_slash [] = [[]]"
| "split_slash (c # cs) =
     (if c = 47 then [] # split_slash cs
      else (case split_slash cs of [] \<Rightarrow> [[c]] | h # t \<Rightarrow> (c # h) # t))"

definition resolve :: "ustring \<Rightarrow> path" where
  "resolve s =
     ((case s of [] \<Rightarrow> False | c # _ \<Rightarrow> c = 47),
      filter (\<lambda>n. n \<noteq> [] \<and> n \<noteq> [46]) (split_slash s))"

definition names :: "ustring \<Rightarrow> ustring list" where
  "names s = filter (\<lambda>n. n \<noteq> []) (split_slash s)"

definition dot_last :: "ustring \<Rightarrow> bool" where
  "dot_last s = (case rev (names s) of [] \<Rightarrow> False | n # ns \<Rightarrow> n = [46])"

definition wants_dir :: "ustring \<Rightarrow> bool" where
  "wants_dir s = (s \<noteq> [] \<and> (last s = 47 \<or> dot_last s))"

datatype errno = ENOENT | ENOTDIR | EEXIST | EISDIR | EBUSY | EINVAL

fun walk :: "fs \<Rightarrow> bool \<Rightarrow> ustring list \<Rightarrow> ustring list \<Rightarrow> errno + node" where
  "walk fs a cur [] = Inr Dir"
| "walk fs a cur (n # ns) =
     (case fs (a, cur @ [n]) of
        None \<Rightarrow> Inl ENOENT
      | Some (File d) \<Rightarrow> (if ns = [] then Inr (File d) else Inl ENOTDIR)
      | Some Dir \<Rightarrow> walk fs a (cur @ [n]) ns)"

definition stat :: "fs \<Rightarrow> ustring \<Rightarrow> errno + node" where
  "stat fs s =
     (if s = [] then Inl ENOENT
      else (case walk fs (fst (resolve s)) [] (snd (resolve s)) of
              Inr (File d) \<Rightarrow> (if wants_dir s then Inl ENOTDIR else Inr (File d))
            | r \<Rightarrow> r))"

definition below :: "path \<Rightarrow> path \<Rightarrow> bool" where
  "below p q = (fst p = fst q \<and> strict_prefix (snd p) (snd q))"

text \<open>A directory that is created is empty; a tree that is removed takes everything below it.\<close>

definition create_dir :: "fs \<Rightarrow> path \<Rightarrow> fs" where
  "create_dir fs p = (\<lambda>q. if q = p then Some Dir else if below p q then None else fs q)"

definition remove_below :: "fs \<Rightarrow> path \<Rightarrow> fs" where
  "remove_below fs p = (\<lambda>q. if below p q then None else fs q)"

definition remove_tree :: "fs \<Rightarrow> path \<Rightarrow> fs" where
  "remove_tree fs p = (\<lambda>q. if q = p \<or> below p q then None else fs q)"

text \<open>
  \<open>os.mkdir(p)\<close>, the system call: the directory above must be there and the name must be
  free. A last component \<open>.\<close> is looked up, not created.
\<close>

definition os_mkdir :: "fs \<Rightarrow> ustring \<Rightarrow> errno + fs" where
  "os_mkdir fs s =
     (if s = [] then Inl ENOENT
      else if dot_last s \<or> snd (resolve s) = []
      then (case stat fs s of Inl k \<Rightarrow> Inl k | Inr nd \<Rightarrow> Inl EEXIST)
      else (case walk fs (fst (resolve s)) [] (butlast (snd (resolve s))) of
              Inl k \<Rightarrow> Inl k
            | Inr (File d) \<Rightarrow> Inl ENOTDIR
            | Inr Dir \<Rightarrow>
                (case fs (resolve s) of
                   Some nd \<Rightarrow> Inl EEXIST
                 | None \<Rightarrow> Inr (create_dir fs (resolve s)))))"

text \<open>
  What creating a directory with the missing ones above it comes to, component by
  component: an existing directory is accepted, a missing one is made, a file in the way is
  \<open>EEXIST\<close> at the last component and \<open>ENOTDIR\<close> above it. The two library calls
  \<open>os.makedirs\<close> and \<open>Path.mkdir\<close> below are translated from the library and then shown
  to make these directories.
\<close>

fun mkdirs :: "fs \<Rightarrow> bool \<Rightarrow> ustring list \<Rightarrow> ustring list \<Rightarrow> errno + fs" where
  "mkdirs fs a cur [] = Inr fs"
| "mkdirs fs a cur (n # ns) =
     (case fs (a, cur @ [n]) of
        None \<Rightarrow> mkdirs (create_dir fs (a, cur @ [n])) a (cur @ [n]) ns
      | Some (File d) \<Rightarrow> Inl (if ns = [] then EEXIST else ENOTDIR)
      | Some Dir \<Rightarrow> mkdirs fs a (cur @ [n]) ns)"

text \<open>
  Exceptions. \<open>RuntimeError\<close> and \<open>FileNotFoundError\<close> carry the message the source gives
  them; \<open>OSError\<close> stands for the subclass of \<open>OSError\<close> that a library call raises for an
  error number and a file name (\<open>FileExistsError\<close> is \<open>EEXIST\<close>, \<open>NotADirectoryError\<close> is
  \<open>ENOTDIR\<close>, \<open>IsADirectoryError\<close> is \<open>EISDIR\<close>, and the \<open>FileNotFoundError\<close> of a
  library call is \<open>ENOENT\<close>); \<open>ValueError\<close> covers \<open>UnicodeEncodeError\<close> and what
  \<open>subprocess.run\<close> raises for a malformed argument, and carries the text \<open>str(e)\<close>. All
  are subclasses of \<open>Exception\<close>.
\<close>

datatype exn =
    RuntimeError ustring
  | FileNotFoundError ustring
  | OSError errno ustring
  | ValueError ustring

text \<open>
  What the program does to the outside is recorded, in order, in a trace: console lines,
  the queries and changes of the file system that succeeded, and every call of
  \<open>subprocess.run\<close>.
\<close>

datatype event =
    Print ustring
  | Exists ustring
  | GetSize ustring
  | MakeDirs ustring
  | RmTree ustring
  | Append ustring ustring
  | Spawn "ustring list"

record world =
  files :: fs
  clock :: datetime
  trace :: "event list"

text \<open>\<open>subprocess.CompletedProcess\<close> with \<open>text=True, capture_output=True\<close>\<close>

record completed =
  returncode :: int
  stdout :: ustring
  stderr :: ustring

text \<open>
  The environment of a run: \<open>exec\<close> is what running an external command does to the world
  (the two tools are opaque; the call may also raise, as when the program is not installed),
  \<open>strerror\<close> is the text \<open>str(e)\<close> of a library \<open>OSError\<close>, \<open>dir_size\<close> the size the
  system reports for a directory.
\<close>

record env =
  exec :: "ustring list \<Rightarrow> world \<Rightarrow> (exn + completed) \<times> world"
  strerror :: "errno \<Rightarrow> ustring \<Rightarrow> ustring"
  dir_size :: nat

type_synonym 'a io = "world \<Rightarrow> (exn + 'a) \<times> world"

definition io_return :: "'a \<Rightarrow> 'a io" where
  "io_return x w = (Inr x, w)"

definition io_raise :: "exn \<Rightarrow> 'a io" where
  "io_raise e w = (Inl e, w)"

definition io_bind :: "'a io \<Rightarrow> ('a \<Rightarrow> 'b io) \<Rightarrow> 'b io" where
  "io_bind m f w = (case m w of (Inl e, w') \<Rightarrow> (Inl e, w') | (Inr x, w') \<Rightarrow> f x w')"

text \<open>\<open>try: m  except Exception as e: h e\<close>\<close>

definition io_try :: "'a io \<Rightarrow> (exn \<Rightarrow> 'a io) \<Rightarrow> 'a io" where
  "io_try m h w = (case m w of (Inl e, w') \<Rightarrow> h e w' | (Inr x, w') \<Rightarrow> (Inr x, w'))"

definition emit :: "event \<Rightarrow> world \<Rightarrow> world" where
  "emit ev w = w\<lparr>trace := trace w @ [ev]\<rparr>"

text \<open>\<open>str(e)\<close>\<close>

fun str_exn :: "env \<Rightarrow> exn \<Rightarrow> ustring" where
  "str_exn E (RuntimeError m) = m"
| "str_exn E (FileNotFoundError m) = m"
| "str_exn E (OSError k f) = strerror E k f"
| "str_exn E (ValueError m) = m"

subsection \<open>Library calls\<close>

definition print_line :: "ustring \<Rightarrow> unit io" where
  "print_line s w = (Inr (), emit (Print s) w)"

definition os_path_exists :: "ustring \<Rightarrow> bool io" where
  "os_path_exists s w = (Inr (\<not> isl (stat (files w) s)), emit (Exists s) w)"

definition os_path_getsize :: "env \<Rightarrow> ustring \<Rightarrow> nat io" where
  "os_path_getsize E s w =
     (case stat (files w) s of
        Inl k \<Rightarrow> (Inl (OSError k s), w)
      | Inr (File d) \<Rightarrow> (Inr (length d), emit (GetSize s) w)
      | Inr Dir \<Rightarrow> (Inr (dir_size E), emit (GetSize s) w))"

text \<open>
  \<open>os.path.split(p)\<close>: the text up to the last \<open>/\<close>, without the slashes that end it
  unless it holds nothing else, and the text after it.
\<close>

definition posix_split :: "ustring \<Rightarrow> ustring \<times> ustring" where
  "posix_split p =
     (let head = rev (dropWhile (\<lambda>c. c \<noteq> 47) (rev p));
          tail = rev (takeWhile (\<lambda>c. c \<noteq> 47) (rev p)) in
      (if head \<noteq> [] \<and> head \<noteq> replicate (length head) 47
       then rev (dropWhile (\<lambda>c. c = 47) (rev head)) else head,
       tail))"

text \<open>
  \<open>os.makedirs(name, exist_ok=True)\<close>, after the library: \<open>dir_split\<close> is its first three
  lines (\<open>head, tail = path.split(name)\<close>, once more on \<open>head\<close> when \<open>tail\<close> is empty),
  \<open>mkdir_exist_ok\<close> its last statement (\<open>mkdir(name)\<close>, whose \<open>OSError\<close> is raised again
  unless \<open>name\<close> is a directory). When \<open>head\<close> does not exist it is made first, by the same
  function; a \<open>FileExistsError\<close> of that call is passed over, any other error ends the
  call and names the directory that could not be made.
\<close>

definition dir_split :: "ustring \<Rightarrow> ustring \<times> ustring" where
  "dir_split name =
     (if snd (posix_split name) = [] then posix_split (fst (posix_split name))
      else posix_split name)"

fun file_exists_error :: "exn \<Rightarrow> bool" where
  "file_exists_error (OSError k f) = (k = EEXIST)"
| "file_exists_error _ = False"

definition mkdir_exist_ok :: "fs \<Rightarrow> ustring \<Rightarrow> (exn + unit) \<times> fs" where
  "mkdir_exist_ok fs name =
     (case os_mkdir fs name of
        Inr fs' \<Rightarrow> (Inr (), fs')
      | Inl k \<Rightarrow> (if stat fs name = Inr Dir then (Inr (), fs) else (Inl (OSError k name), fs)))"

function makedirs :: "fs \<Rightarrow> ustring \<Rightarrow> (exn + unit) \<times> fs" where
  "makedirs fs name =
     (let head = fst (dir_split name); tail = snd (dir_split name) in
      if head \<noteq> [] \<and> tail \<noteq> [] \<and> isl (stat fs head)
      then (case makedirs fs head of
              (r, fs1) \<Rightarrow>
                (if isl r \<and> \<not> file_exists_error (projl r) then (r, fs1)
                 else if tail = [46] then (Inr (), fs1)
                 else mkdir_exist_ok fs1 name))
      else mkdir_exist_ok fs name)"
  by pat_completeness auto
termination
proof (relation "measure (\<lambda>(fs, name). length name)")
  show "wf (measure (\<lambda>(fs :: fs, name :: ustring). length name))" by simp
next
  fix fs :: fs and name x xa :: ustring
  assume x: "x = fst (dir_split name)" and xa: "xa = snd (dir_split name)"
    and c: "x \<noteq> [] \<and> xa \<noteq> [] \<and> isl (stat fs x)"
  have len: "length (fst (posix_split p)) + length (snd (posix_split p)) \<le> length p"
    for p :: ustring
  proof -
    let ?h = "rev (dropWhile (\<lambda>c. c \<noteq> 47) (rev p))"
    let ?t = "rev (takeWhile (\<lambda>c. c \<noteq> 47) (rev p))"
    have "length ?h + length ?t = length p"
      by (metis add.commute length_append length_rev takeWhile_dropWhile_id)
    moreover have "length (rev (dropWhile (\<lambda>c. c = 47) (rev ?h))) \<le> length ?h"
      by (simp add: length_dropWhile_le)
    ultimately show ?thesis by (simp add: posix_split_def Let_def)
  qed
  have "length x < length name"
  proof (cases "snd (posix_split name) = []")
    case True
    then have d: "dir_split name = posix_split (fst (posix_split name))"
      by (simp add: dir_split_def)
    with c xa have "0 < length (snd (posix_split (fst (posix_split name))))" by simp
    with len [of "fst (posix_split name)"] len [of name]
    have "length (fst (posix_split (fst (posix_split name)))) < length name" by linarith
    with d x show ?thesis by simp
  next
    case False
    then have d: "dir_split name = posix_split name" by (simp add: dir_split_def)
    from False have "0 < length (snd (posix_split name))" by simp
    with len [of name] have "length (fst (posix_split name)) < length name" by linarith
    with d x show ?thesis by simp
  qed
  then show "((fs, x), (fs, name)) \<in> measure (\<lambda>(fs, name). length name)" by simp
qed

declare makedirs.simps [simp del]

definition os_makedirs :: "ustring \<Rightarrow> unit io" where
  "os_makedirs s w =
     (case makedirs (files w) s of
        (Inl e, fs') \<Rightarrow> (Inl e, w\<lparr>files := fs'\<rparr>)
      | (Inr u, fs') \<Rightarrow> (Inr (), emit (MakeDirs s) (w\<lparr>files := fs'\<rparr>)))"

text \<open>
  \<open>Path(p)\<close> keeps a root (\<open>/\<close>, or \<open>//\<close> when the text begins with exactly two slashes) and
  the parts of the text, which are the components that resolution keeps; its text
  \<open>str(Path(p))\<close> is the root followed by the parts joined with \<open>/\<close>, or \<open>.\<close> when there is
  neither. The parent drops the last part; a path without parts is its own parent.
\<close>

definition path_root :: "ustring \<Rightarrow> ustring" where
  "path_root s =
     (if take 2 s = [47, 47] \<and> take 3 s \<noteq> [47, 47, 47] then [47, 47]
      else if take 1 s = [47] then [47] else [])"

definition path_str :: "ustring \<Rightarrow> ustring list \<Rightarrow> ustring" where
  "path_str root parts = (if root = [] \<and> parts = [] then [46] else root @ join [47] parts)"

text \<open>
  \<open>Path.mkdir(parents, exist_ok=True)\<close> of the path with this root and these parts, after
  the library: \<open>os.mkdir\<close> is tried first; on \<open>FileNotFoundError\<close> with \<open>parents\<close> set the
  parent is made by the same method and the directory is made again, without \<open>parents\<close>;
  any other \<open>OSError\<close> is raised again unless the path is a directory.
\<close>

function pathlib_mkdir :: "fs \<Rightarrow> ustring \<Rightarrow> ustring list \<Rightarrow> bool \<Rightarrow> (exn + unit) \<times> fs" where
  "pathlib_mkdir fs root parts parents =
     (case os_mkdir fs (path_str root parts) of
        Inr fs' \<Rightarrow> (Inr (), fs')
      | Inl k \<Rightarrow>
          (if k = ENOENT
           then (if \<not> parents \<or> parts = [] then (Inl (OSError k (path_str root parts)), fs)
                 else (case pathlib_mkdir fs root (butlast parts) True of
                         (Inl e, fs1) \<Rightarrow> (Inl e, fs1)
                       | (Inr u, fs1) \<Rightarrow> pathlib_mkdir fs1 root parts False))
           else if stat fs (path_str root parts) = Inr Dir then (Inr (), fs)
           else (Inl (OSError k (path_str root parts)), fs)))"
  by pat_completeness auto
termination
  by (relation "measure (\<lambda>(fs, root, parts, parents). 2 * length parts + (if parents then 1 else 0))")
    auto

declare pathlib_mkdir.simps [simp del]

text \<open>\<open>Path(p).parent.mkdir(parents=True, exist_ok=True)\<close>\<close>

definition path_parent_mkdir :: "ustring \<Rightarrow> unit io" where
  "path_parent_mkdir s w =
     (case pathlib_mkdir (files w) (path_root s) (butlast (snd (resolve s))) True of
        (r, fs') \<Rightarrow> (r, w\<lparr>files := fs'\<rparr>))"

text \<open>
  \<open>shutil.rmtree(p)\<close>: only a directory can be removed this way; for the root, and for a
  text whose last component is \<open>.\<close>, the content goes and the final \<open>rmdir\<close> fails.
\<close>

definition shutil_rmtree :: "ustring \<Rightarrow> unit io" where
  "shutil_rmtree s w =
     (case stat (files w) s of
        Inl k \<Rightarrow> (Inl (OSError k s), w)
      | Inr (File d) \<Rightarrow> (Inl (OSError ENOTDIR s), w)
      | Inr Dir \<Rightarrow>
          (if dot_last s \<or> snd (resolve s) = []
           then (Inl (OSError (if dot_last s then EINVAL else EBUSY) s),
                 w\<lparr>files := remove_below (files w) (resolve s)\<rparr>)
           else (Inr (), emit (RmTree s) (w\<lparr>files := remove_tree (files w) (resolve s)\<rparr>))))"

text \<open>
  \<open>with open(p, "a", encoding="utf-8") as f: f.write(text)\<close>. Opening creates a missing
  file in an existing directory; a text that names a directory cannot be opened for
  writing. A surrogate code point cannot be encoded: the write then raises
  \<open>UnicodeEncodeError\<close>, whose text names the first run of surrogates, and the file, already
  opened, keeps its content. (A \<open>str\<close> holds code points below 1114112.)
\<close>

definition surrogate :: "nat \<Rightarrow> bool" where
  "surrogate c = (55296 \<le> c \<and> c \<le> 57343)"

definition encodable :: "ustring \<Rightarrow> bool" where
  "encodable s = list_all (\<lambda>c. \<not> surrogate c) s"

definition hex_digit :: "nat \<Rightarrow> nat" where
  "hex_digit d = (if d < 10 then 48 + d else 87 + d)"

definition encode_error :: "ustring \<Rightarrow> ustring" where
  "encode_error s =
     (let start = length (takeWhile (\<lambda>c. \<not> surrogate c) s);
          n = length (takeWhile surrogate (drop start s));
          c = s ! start in
      [39] @ ascii ''utf-8'' @ [39] @ ascii '' codec can'' @ [39] @
      (if n = 1
       then ascii ''t encode character '' @ [39, 92, 117] @
            map hex_digit [c div 4096 mod 16, c div 256 mod 16, c div 16 mod 16, c mod 16] @
            [39] @ ascii '' in position '' @ str_nat start
       else ascii ''t encode characters in position '' @ str_nat start @ [45] @
            str_nat (start + n - 1)) @
      ascii '': surrogates not allowed'')"

definition open_append_write :: "ustring \<Rightarrow> ustring \<Rightarrow> unit io" where
  "open_append_write s text w =
     (if s = [] then (Inl (OSError ENOENT s), w)
      else if dot_last s \<or> snd (resolve s) = []
      then (case stat (files w) s of
              Inl k \<Rightarrow> (Inl (OSError k s), w)
            | Inr nd \<Rightarrow> (Inl (OSError EISDIR s), w))
      else (case walk (files w) (fst (resolve s)) [] (butlast (snd (resolve s))) of
              Inl k \<Rightarrow> (Inl (OSError k s), w)
            | Inr (File d) \<Rightarrow> (Inl (OSError ENOTDIR s), w)
            | Inr Dir \<Rightarrow>
                (if last s = 47 then (Inl (OSError EISDIR s), w)
                 else (case files w (resolve s) of
                   Some Dir \<Rightarrow> (Inl (OSError EISDIR s), w)
                 | Some (File d) \<Rightarrow>
                     (if encodable text
                      then (Inr (), emit (Append s text)
                                      (w\<lparr>files := (files w)(resolve s \<mapsto> File (d @ text))\<rparr>))
                      else (Inl (ValueError (encode_error text)), w))
                 | None \<Rightarrow>
                     (if encodable text
                      then (Inr (), emit (Append s text)
                                      (w\<lparr>files := (files w)(resolve s \<mapsto> File text)\<rparr>))
                      else (Inl (ValueError (encode_error text)),
                            w\<lparr>files := (files w)(resolve s \<mapsto> File [])\<rparr>))))))"

text \<open>
  \<open>subprocess.run(cmd, text=True, capture_output=True)\<close>: the command's effect is the
  environment's; the trace is the program's own and records the call.
\<close>

definition subprocess_run :: "env \<Rightarrow> ustring list \<Rightarrow> completed io" where
  "subprocess_run E cmd w =
     (case exec E cmd w of (r, w') \<Rightarrow> (r, w'\<lparr>trace := trace w @ [Spawn cmd]\<rparr>))"

definition datetime_now_strftime :: "ustring io" where
  "datetime_now_strftime w = (Inr (strftime (clock w)), w)"

section \<open>The program\<close>

subsection \<open>\<open>run_command\<close> and \<open>safe_rmtree\<close>\<close>

definition run_command :: "env \<Rightarrow> ustring list \<Rightarrow> bool \<Rightarrow> completed option io" where
  "run_command E cmd dry =
     (let printable = join (ascii '' '') cmd in
      io_bind (print_line (ascii ''Running: '' @ printable)) (\<lambda>_.
        if dry then io_return None
        else io_bind (subprocess_run E cmd) (\<lambda>result.
          if returncode result \<noteq> 0
          then io_raise (RuntimeError
                 (ascii ''Command failed: '' @ printable @ [10] @ stderr result))
          else io_return (Some result))))"

definition safe_rmtree :: "ustring \<Rightarrow> bool \<Rightarrow> unit io" where
  "safe_rmtree p dry =
     io_bind (os_path_exists p) (\<lambda>there.
       if \<not> there then io_return ()
       else io_bind (print_line (ascii ''Cleaning: '' @ p)) (\<lambda>_.
         if dry then io_return () else shutil_rmtree p))"

subsection \<open>The class \<open>SraDownloader\<close>\<close>

record SraDownloader =
  dry_run :: bool
  out_dir :: ustring
  temp_dir :: ustring
  sra_dir :: ustring
  threads :: int

definition prefetch_one :: "env \<Rightarrow> SraDownloader \<Rightarrow> ustring \<Rightarrow> unit io" where
  "prefetch_one E self acc =
     (let cmd = [ascii ''prefetch'', acc, ascii ''--output-directory'', sra_dir self] in
      io_bind (run_command E cmd (dry_run self)) (\<lambda>_.
        print_line (ascii ''prefetch successful for '' @ acc)))"

definition fasterq_dump_one :: "env \<Rightarrow> SraDownloader \<Rightarrow> ustring \<Rightarrow> unit io" where
  "fasterq_dump_one E self acc =
     (let out_dir_acc = out_dir self @ [47] @ acc;
          tmp_dir_acc = temp_dir self @ [47] @ acc;
          sra_path = sra_dir self @ [47] @ acc @ [47] @ acc @ ascii ''.sra'' in
      io_bind (os_makedirs out_dir_acc) (\<lambda>_.
      io_bind (os_makedirs tmp_dir_acc) (\<lambda>_.
      io_bind (if dry_run self then io_return True else os_path_exists sra_path) (\<lambda>ok.
        if \<not> ok then io_raise (FileNotFoundError (ascii ''Missing SRA file: '' @ sra_path))
        else
          (let cmd = [ascii ''fasterq-dump'', sra_path,
                      ascii ''--outdir'', out_dir_acc,
                      ascii ''--temp'', tmp_dir_acc,
                      ascii ''--threads'', str_int (threads self),
                      ascii ''--split-files''] in
           io_bind (run_command E cmd (dry_run self)) (\<lambda>_.
             print_line (ascii ''fasterq-dump successful for '' @ acc)))))))"

text \<open>
  \<open>os.path.exists(p) and os.path.getsize(p) > 0\<close>: the size is asked only of a path
  that exists.
\<close>

definition exists_nonempty :: "env \<Rightarrow> ustring \<Rightarrow> bool io" where
  "exists_nonempty E p =
     io_bind (os_path_exists p) (\<lambda>there.
       if there then io_bind (os_path_getsize E p) (\<lambda>n. io_return (0 < n))
       else io_return False)"

definition is_done :: "env \<Rightarrow> SraDownloader \<Rightarrow> ustring \<Rightarrow> bool io" where
  "is_done E self acc =
     (let out_dir_acc = out_dir self @ [47] @ acc;
          se = out_dir_acc @ [47] @ acc @ ascii ''.fastq'';
          pe1 = out_dir_acc @ [47] @ acc @ ascii ''_1.fastq'' in
      io_bind (exists_nonempty E se) (\<lambda>c1.
        if c1 then io_return True
        else io_bind (exists_nonempty E pe1) (\<lambda>c2.
          if c2 then io_return True else io_return False)))"

subsection \<open>The log\<close>

text \<open>The lock around the write has no effect on a single pipeline and is not modelled.\<close>

definition log_line :: "ustring \<Rightarrow> ustring \<Rightarrow> ustring \<Rightarrow> ustring \<Rightarrow> ustring" where
  "log_line ts acc status msg = ts @ [9] @ acc @ [9] @ status @ [9] @ msg @ [10]"

definition append_log :: "ustring \<Rightarrow> ustring \<Rightarrow> ustring \<Rightarrow> ustring \<Rightarrow> unit io" where
  "append_log log_path acc status msg =
     io_bind datetime_now_strftime (\<lambda>ts.
       io_bind (path_parent_mkdir log_path) (\<lambda>_.
         open_append_write log_path (log_line ts acc status msg)))"

subsection \<open>Validation and deduplication\<close>

text \<open>
  \<open>re.fullmatch(r"(SRR|ERR|DRR)\d+", acc) is not None\<close>: one of the three prefixes, then
  one or more characters of the class \<open>\d\<close>, and nothing else.
\<close>

definition validate_accessions :: "ucd \<Rightarrow> ustring \<Rightarrow> bool" where
  "validate_accessions U acc =
     list_ex (\<lambda>p. prefix p acc \<and> drop (length p) acc \<noteq> [] \<and>
                  list_all (isdecimal U) (drop (length p) acc))
       [ascii ''SRR'', ascii ''ERR'', ascii ''DRR'']"

text \<open>The loop of \<open>dedup_preserve_order\<close>, with its two variables \<open>seen\<close> and \<open>out\<close>.\<close>

fun dedup_loop :: "'a list \<Rightarrow> 'a set \<Rightarrow> 'a list \<Rightarrow> 'a list" where
  "dedup_loop [] seen out = out"
| "dedup_loop (item # items) seen out =
     (if item \<notin> seen then dedup_loop items (insert item seen) (out @ [item])
      else dedup_loop items seen out)"

definition dedup_preserve_order :: "'a list \<Rightarrow> 'a list" where
  "dedup_preserve_order items = dedup_loop items {} []"

subsection \<open>The pipeline of one accession\<close>

text \<open>
  The result of \<open>process_one_accession\<close> is the tuple \<open>(acc, success, msg)\<close>. The body of
  its \<open>try\<close> block is \<open>attempt\<close>; the part of that body after the two downloads is
  \<open>cleanup_and_log\<close>.
\<close>

type_synonym outcome = "ustring \<times> bool \<times> ustring"

definition cleanup_and_log ::
  "ustring \<Rightarrow> ustring \<Rightarrow> ustring \<Rightarrow> bool \<Rightarrow> bool \<Rightarrow> bool \<Rightarrow> ustring \<Rightarrow> outcome io" where
  "cleanup_and_log acc td sd dry delete_tmp_after delete_sra_after log_path =
     (let tmp_dir_acc = td @ [47] @ acc;
          sra_dir_acc = sd @ [47] @ acc in
      io_bind (if delete_tmp_after then safe_rmtree tmp_dir_acc dry else io_return ()) (\<lambda>_.
      io_bind (if delete_sra_after then safe_rmtree sra_dir_acc dry else io_return ()) (\<lambda>_.
      io_bind (append_log log_path acc (ascii ''OK'')
                 (ascii ''prefetch + fasterq-dump completed'')) (\<lambda>_.
        io_return (acc, True, ascii ''OK'')))))"

definition attempt ::
  "env \<Rightarrow> SraDownloader \<Rightarrow> ustring \<Rightarrow> ustring \<Rightarrow> ustring \<Rightarrow> bool \<Rightarrow> bool \<Rightarrow> bool \<Rightarrow>
   ustring \<Rightarrow> outcome io" where
  "attempt E downloader acc td sd dry delete_tmp_after delete_sra_after log_path =
     io_bind (prefetch_one E downloader acc) (\<lambda>_.
     io_bind (fasterq_dump_one E downloader acc) (\<lambda>_.
       cleanup_and_log acc td sd dry delete_tmp_after delete_sra_after log_path))"

definition process_one_accession ::
  "env \<Rightarrow> ustring \<Rightarrow> ustring \<Rightarrow> ustring \<Rightarrow> ustring \<Rightarrow> int \<Rightarrow> bool \<Rightarrow> bool \<Rightarrow> bool \<Rightarrow>
   ustring \<Rightarrow> outcome io" where
  "process_one_accession E acc od td sd nthreads dry delete_tmp_after delete_sra_after log_path =
     (let downloader = \<lparr>dry_run = dry, out_dir = od, temp_dir = td, sra_dir = sd,
                        threads = nthreads\<rparr> in
      io_bind (is_done E downloader acc) (\<lambda>done.
        if done
        then io_bind (append_log log_path acc (ascii ''SKIP'')
                        (ascii ''fastq already downloaded'')) (\<lambda>_.
               io_return (acc, True, ascii ''SKIP (fastq already downloaded)''))
        else io_try
               (attempt E downloader acc td sd dry delete_tmp_after delete_sra_after log_path)
               (\<lambda>e. io_bind (append_log log_path acc (ascii ''FAIL'')
                               (replace_newlines (str_exn E e))) (\<lambda>_.
                      io_return (acc, False, str_exn E e)))))"

subsection \<open>\<open>main\<close>\<close>

text \<open>
  The paths and switches that \<open>main\<close> fixes in its first lines are gathered in a record,
  and the list that \<open>read_accessions\<close> returns is an argument.
\<close>

record config =
  cfg_out_dir :: ustring
  cfg_tmp_dir :: ustring
  cfg_sra_dir :: ustring
  cfg_log_path :: ustring
  cfg_delete_tmp_after :: bool
  cfg_delete_sra_after :: bool
  cfg_jobs :: int
  cfg_threads :: int
  cfg_dry_run :: bool

definition source_config :: config where
  "source_config =
     \<lparr>cfg_out_dir = ascii ''/mnt/d/Personal_Research/Data/fastq_files'',
      cfg_tmp_dir = ascii ''/mnt/d/Personal_Research/Data/tmp_files'',
      cfg_sra_dir = ascii ''/mnt/d/Personal_Research/Data/sra_cache'',
      cfg_log_path = ascii ''/mnt/c/Users/eddie/Personal_Research/logs/sra_fetch.log'',
      cfg_delete_tmp_after = True,
      cfg_delete_sra_after = True,
      cfg_jobs = 2,
      cfg_threads = 2,
      cfg_dry_run = False\<rparr>"

text \<open>The decision of the validation loop on one raw token: \<open>strip\<close>, \<open>upper\<close>, then the pattern.\<close>

definition accepts :: "ucd \<Rightarrow> ustring \<Rightarrow> bool" where
  "accepts U raw = validate_accessions U (upper U (strip U raw))"


text \<open>
  The executor runs every submitted pipeline to its end, whatever the others do, and keeps
  what each returned or raised in its future. The pipelines are modelled as running one
  after the other, in the order in which they complete; steps of different pipelines are
  not interleaved.
\<close>

fun run_futures :: "env \<Rightarrow> config \<Rightarrow> ustring list \<Rightarrow> world \<Rightarrow> (exn + outcome) list \<times> world" where
  "run_futures E C [] w = ([], w)"
| "run_futures E C (acc # accs) w =
     (case process_one_accession E acc (cfg_out_dir C) (cfg_tmp_dir C) (cfg_sra_dir C)
             (cfg_threads C) (cfg_dry_run C) (cfg_delete_tmp_after C) (cfg_delete_sra_after C)
             (cfg_log_path C) w of
        (r, w') \<Rightarrow> (case run_futures E C accs w' of (rs, w'') \<Rightarrow> (r # rs, w'')))"

text \<open>
  The loop over \<open>as_completed(futures)\<close>: \<open>fut.result()\<close> returns the tuple or raises what
  the pipeline raised, which ends \<open>main\<close>.
\<close>

fun collect :: "(exn + outcome) list \<Rightarrow> nat \<Rightarrow> nat \<Rightarrow> (nat \<times> nat) io" where
  "collect [] ok failed = io_return (ok, failed)"
| "collect (Inl e # futs) ok failed = io_raise e"
| "collect (Inr (acc, success, msg) # futs) ok failed =
     (if success
      then io_bind (print_line (acc @ ascii '': '' @ msg)) (\<lambda>_. collect futs (ok + 1) failed)
      else io_bind (print_line (acc @ ascii '': FAILED - '' @ msg))
             (\<lambda>_. collect futs ok (failed + 1)))"


definition scheduler :: "env \<Rightarrow> config \<Rightarrow> ustring list \<Rightarrow> (nat \<times> nat) io" where
  "scheduler E C acc_list w =
     (if cfg_jobs C \<le> 0
      then (Inl (ValueError (ascii ''max_workers must be greater than 0'')), w)
      else (case run_futures E C acc_list w of (futs, w') \<Rightarrow> collect futs 0 0 w'))"


section \<open>Observations on a run\<close>

text \<open>What a computation adds to the trace, and the events of one kind among them.\<close>

definition new_events :: "world \<Rightarrow> world \<Rightarrow> event list" where
  "new_events w w' = drop (length (trace w)) (trace w')"

fun is_append :: "event \<Rightarrow> bool" where
  "is_append (Append p t) = True"
| "is_append _ = False"

fun is_query :: "event \<Rightarrow> bool" where
  "is_query (Exists p) = True"
| "is_query (GetSize p) = True"
| "is_query _ = False"

fun is_spawn :: "event \<Rightarrow> bool" where
  "is_spawn (Spawn c) = True"
| "is_spawn _ = False"

text \<open>The records written to files, in the order of writing: path and text.\<close>

fun record_of :: "event \<Rightarrow> (ustring \<times> ustring) list" where
  "record_of (Append p t) = [(p, t)]"
| "record_of _ = []"

definition log_records :: "event list \<Rightarrow> (ustring \<times> ustring) list" where
  "log_records evs = concat (map record_of evs)"

text \<open>
  The three paths and the command of \<open>fasterq_dump_one\<close>, under the names of its local
  variables.
\<close>

definition out_dir_acc :: "SraDownloader \<Rightarrow> ustring \<Rightarrow> ustring" where
  "out_dir_acc self acc = out_dir self @ [47] @ acc"

definition tmp_dir_acc :: "SraDownloader \<Rightarrow> ustring \<Rightarrow> ustring" where
  "tmp_dir_acc self acc = temp_dir self @ [47] @ acc"

definition sra_path :: "SraDownloader \<Rightarrow> ustring \<Rightarrow> ustring" where
  "sra_path self acc = sra_dir self @ [47] @ acc @ [47] @ acc @ ascii ''.sra''"

definition fasterq_cmd :: "SraDownloader \<Rightarrow> ustring \<Rightarrow> ustring list" where
  "fasterq_cmd self acc =
     [ascii ''fasterq-dump'', sra_path self acc,
      ascii ''--outdir'', out_dir_acc self acc,
      ascii ''--temp'', tmp_dir_acc self acc,
      ascii ''--threads'', str_int (threads self),
      ascii ''--split-files'']"

definition missing_sra :: "SraDownloader \<Rightarrow> ustring \<Rightarrow> exn" where
  "missing_sra self acc = FileNotFoundError (ascii ''Missing SRA file: '' @ sra_path self acc)"

text \<open>
  What \<open>os.path.exists(p) and os.path.getsize(p) > 0\<close> finds in a file system: a file
  with some content, or a directory of positive size.
\<close>

definition nonempty_at :: "env \<Rightarrow> fs \<Rightarrow> ustring \<Rightarrow> bool" where
  "nonempty_at E fs p =
     (case stat fs p of Inl k \<Rightarrow> False | Inr (File d) \<Rightarrow> d \<noteq> [] | Inr Dir \<Rightarrow> 0 < dir_size E)"

text \<open>
  A computation \<open>adds P\<close> when it only ever extends the trace, by events that satisfy \<open>P\<close>.
\<close>

definition adds :: "(event \<Rightarrow> bool) \<Rightarrow> 'a io \<Rightarrow> bool" where
  "adds P m = (\<forall>w. \<exists>evs. trace (snd (m w)) = trace w @ evs \<and> list_all P evs)"

text \<open>
  The accession grammar as the specification words it, \<open>^(SRR|ERR|DRR)[0-9]+$\<close>: one of the
  three prefixes, then one or more of the ten ASCII digits, and nothing else. It is set
  beside \<open>validate_accessions\<close>, which is the translation of the source.
\<close>

definition accession_grammar :: "ustring \<Rightarrow> bool" where
  "accession_grammar s =
     list_ex (\<lambda>p. prefix p s \<and> drop (length p) s \<noteq> [] \<and>
                  list_all (\<lambda>c. 48 \<le> c \<and> c \<le> 57) (drop (length p) s))
       [ascii ''SRR'', ascii ''ERR'', ascii ''DRR'']"

section \<open>Example environments\<close>

text \<open>
  Concrete inputs on which the theorems below are instantiated. \<open>tool rc err\<close> is an
  environment whose external commands end with exit status \<open>rc\<close> and error text \<open>err\<close> and
  leave the world as it is.
\<close>

definition tool :: "int \<Rightarrow> ustring \<Rightarrow> env" where
  "tool rc err =
     \<lparr>exec = (\<lambda>cmd w. (Inr \<lparr>returncode = rc, stdout = [], stderr = err\<rparr>, w)),
      strerror = (\<lambda>k f. f),
      dir_size = 4096\<rparr>"

definition noon :: datetime where
  "noon = \<lparr>dt_year = 2024, dt_month = 1, dt_day = 2, dt_hour = 12, dt_minute = 0,
           dt_second = 0\<rparr>"

definition world_of :: "fs \<Rightarrow> world" where
  "world_of fs = \<lparr>files = fs, clock = noon, trace = []\<rparr>"

text \<open>
  A fragment of the interpreter's character tables: it agrees with CPython on ASCII
  characters and on the ARABIC-INDIC digits U+0660 to U+0669, which are decimal digits
  (category Nd) in every version of Unicode.
\<close>

definition ucd_fragment :: ucd where
  "ucd_fragment =
     \<lparr>isspace = (\<lambda>c. (9 \<le> c \<and> c \<le> 13) \<or> (28 \<le> c \<and> c \<le> 32)),
      isdecimal = (\<lambda>c. (48 \<le> c \<and> c \<le> 57) \<or> (1632 \<le> c \<and> c \<le> 1641)),
      upper = map (\<lambda>c. if 97 \<le> c \<and> c \<le> 122 then c - 32 else c)\<rparr>"

text \<open>
  A file system in which the paired-end output of \<open>SRR1\<close> is there, under \<open>o\<close>.
\<close>

definition fs_done :: fs where
  "fs_done = [(False, [ascii ''o'']) \<mapsto> Dir,
              (False, [ascii ''o'', ascii ''SRR1'']) \<mapsto> Dir,
              (False, [ascii ''o'', ascii ''SRR1'', ascii ''SRR1_1.fastq'']) \<mapsto>
                File (ascii ''@r'')]"

text \<open>A configuration with short relative paths, for the example runs.\<close>

definition cfg_small :: config where
  "cfg_small =
     \<lparr>cfg_out_dir = ascii ''o'', cfg_tmp_dir = ascii ''t'', cfg_sra_dir = ascii ''s'',
      cfg_log_path = ascii ''l'', cfg_delete_tmp_after = True, cfg_delete_sra_after = True,
      cfg_jobs = 2, cfg_threads = 2, cfg_dry_run = False\<rparr>"

text \<open>
  Two downloaders that differ in the dry-run flag, a file system in which a regular file
  sits where the output directory of \<open>SRR1\<close> should be, and one in which the root of the
  working directories is a regular file.
\<close>

definition dl_real :: SraDownloader where
  "dl_real = \<lparr>dry_run = False, out_dir = ascii ''o'', temp_dir = ascii ''t'',
               sra_dir = ascii ''s'', threads = 2\<rparr>"

definition dl_dry :: SraDownloader where
  "dl_dry = \<lparr>dry_run = True, out_dir = ascii ''o'', temp_dir = ascii ''t'',
              sra_dir = ascii ''s'', threads = 2\<rparr>"

definition fs_blocked :: fs where
  "fs_blocked = [(False, [ascii ''o'']) \<mapsto> Dir,
                 (False, [ascii ''o'', ascii ''SRR1'']) \<mapsto> File (ascii ''x'')]"

definition fs_tmp_blocked :: fs where
  "fs_tmp_blocked = [(False, [ascii ''t'']) \<mapsto> File (ascii ''x'')]"

section \<open>Verified properties\<close>

subsection \<open>Deduplication\<close>

lemma dedup_loop_out: "dedup_loop xs seen out = out @ dedup_loop xs seen []"
proof (induction xs arbitrary: seen out)
  case Nil
  show ?case by simp
next
  case (Cons x xs)
  show ?case
  proof (cases "x \<in> seen")
    case True
    then show ?thesis using Cons.IH [of seen out] by simp
  next
    case False
    then show ?thesis
      using Cons.IH [of "insert x seen" "out @ [x]"] Cons.IH [of "insert x seen" "[x]"]
      by simp
  qed
qed

lemma dedup_loop_Cons:
  "dedup_loop (x # xs) seen [] =
     (if x \<in> seen then dedup_loop xs seen [] else x # dedup_loop xs (insert x seen) [])"
  using dedup_loop_out [of xs "insert x seen" "[x]"] by simp

lemma set_dedup_loop: "set (dedup_loop xs seen []) = set xs - seen"
  by (induction xs arbitrary: seen) (auto simp: dedup_loop_Cons simp del: dedup_loop.simps(2))

lemma distinct_dedup_loop: "distinct (dedup_loop xs seen [])"
  by (induction xs arbitrary: seen)
    (auto simp: dedup_loop_Cons set_dedup_loop simp del: dedup_loop.simps(2))

lemma subseq_dedup_loop: "subseq (dedup_loop xs seen []) xs"
  by (induction xs arbitrary: seen)
    (auto simp: dedup_loop_Cons simp del: dedup_loop.simps(2))

lemma dedup_loop_snoc:
  "dedup_loop (xs @ [x]) seen [] =
     (if x \<in> seen \<or> x \<in> set xs then dedup_loop xs seen []
      else dedup_loop xs seen [] @ [x])"
proof (induction xs arbitrary: seen)
  case Nil
  show ?case by simp
next
  case (Cons y ys)
  show ?case
    using Cons.IH [of seen] Cons.IH [of "insert y seen"]
    by (auto simp: dedup_loop_Cons simp del: dedup_loop.simps(2))
qed

text \<open>
  Claim C7. For every input list, the result of \<open>dedup_preserve_order\<close> has no repeated
  element, is a subsequence of the input with the same elements, and is no longer than the
  input. It keeps first occurrences, in their order: an element appended to the input is
  appended to the result when it is new, and changes nothing when it occurred before.
\<close>

theorem dedup_preserve_order_first_occurrences:
  "distinct (dedup_preserve_order xs) \<and>
   subseq (dedup_preserve_order xs) xs \<and>
   set (dedup_preserve_order xs) = set xs \<and>
   length (dedup_preserve_order xs) \<le> length xs \<and>
   dedup_preserve_order (xs @ [x]) =
     (if x \<in> set xs then dedup_preserve_order xs else dedup_preserve_order xs @ [x])"
  unfolding dedup_preserve_order_def
  using distinct_dedup_loop [of xs "{}"] subseq_dedup_loop [of xs "{}"]
    set_dedup_loop [of xs "{}"] dedup_loop_snoc [of xs x "{}"]
  by (simp add: list_emb_length)

subsection \<open>The external step runner\<close>

text \<open>
  Claim C4. In dry mode \<open>run_command\<close> prints the command, does not call
  \<open>subprocess.run\<close> (the trace gains the console line only, and the environment's
  \<open>exec\<close> is not consulted) and returns \<open>None\<close>. In real mode, when the process ends
  with an exit status, a status other than zero raises \<open>RuntimeError\<close> whose message
  ends with the captured error text, and status zero returns the completed process
  whatever its output is.
\<close>

theorem run_command_contract:
  "run_command E cmd True w =
     (Inr None, emit (Print (ascii ''Running: '' @ join (ascii '' '') cmd)) w) \<and>
   (\<forall>r w'. exec E cmd (emit (Print (ascii ''Running: '' @ join (ascii '' '') cmd)) w)
              = (Inr r, w') \<longrightarrow>
      run_command E cmd False w =
        (if returncode r \<noteq> 0
         then Inl (RuntimeError
                (ascii ''Command failed: '' @ join (ascii '' '') cmd @ [10] @ stderr r))
         else Inr (Some r),
         w'\<lparr>trace := trace w @
                [Print (ascii ''Running: '' @ join (ascii '' '') cmd), Spawn cmd]\<rparr>))"
  by (simp add: run_command_def io_bind_def print_line_def subprocess_run_def io_return_def
      io_raise_def emit_def Let_def)

theorem run_command_contract_witness:
  "run_command (tool 1 (ascii ''disk full'')) [ascii ''prefetch'', ascii ''SRR1''] False
     (world_of Map.empty) =
     (Inl (RuntimeError (ascii ''Command failed: prefetch SRR1'' @ [10] @ ascii ''disk full'')),
      \<lparr>files = Map.empty, clock = noon,
       trace = [Print (ascii ''Running: prefetch SRR1''),
                Spawn [ascii ''prefetch'', ascii ''SRR1'']]\<rparr>) \<and>
   run_command (tool 0 (ascii ''warning'')) [ascii ''prefetch'', ascii ''SRR1''] False
     (world_of Map.empty) =
     (Inr (Some \<lparr>returncode = 0, stdout = [], stderr = ascii ''warning''\<rparr>),
      \<lparr>files = Map.empty, clock = noon,
       trace = [Print (ascii ''Running: prefetch SRR1''),
                Spawn [ascii ''prefetch'', ascii ''SRR1'']]\<rparr>)"
  using run_command_contract
          [of "tool 1 (ascii ''disk full'')" "[ascii ''prefetch'', ascii ''SRR1'']"
              "world_of Map.empty"]
    run_command_contract
          [of "tool 0 (ascii ''warning'')" "[ascii ''prefetch'', ascii ''SRR1'']"
              "world_of Map.empty"]
  by (simp add: tool_def world_of_def emit_def ascii_def)

subsection \<open>Creating directories\<close>

lemma walk_cong:
  "(\<And>p. p \<noteq> [] \<Longrightarrow> prefix p ms \<Longrightarrow> fs' (a, cur @ p) = fs (a, cur @ p)) \<Longrightarrow>
   walk fs' a cur ms = walk fs a cur ms"
proof (induction ms arbitrary: cur)
  case Nil
  show ?case by simp
next
  case (Cons m ms)
  have h: "fs' (a, cur @ [m]) = fs (a, cur @ [m])"
    using Cons.prems [of "[m]"] by simp
  have "walk fs' a (cur @ [m]) ms = walk fs a (cur @ [m]) ms"
  proof (rule Cons.IH)
    fix p :: "ustring list"
    assume "p \<noteq> []" "prefix p ms"
    then show "fs' (a, (cur @ [m]) @ p) = fs (a, (cur @ [m]) @ p)"
      using Cons.prems [of "m # p"] by simp
  qed
  then show ?case using h by (simp split: option.splits node.splits)
qed

lemma walk_ok_keys:
  "walk fs a cur ms = Inr x \<Longrightarrow> p \<noteq> [] \<Longrightarrow> prefix p ms \<Longrightarrow> fs (a, cur @ p) \<noteq> None"
proof (induction ms arbitrary: cur p)
  case Nil
  then show ?case by simp
next
  case (Cons m ms)
  from Cons.prems(2,3) obtain p' where p: "p = m # p'" "prefix p' ms"
    by (cases p) auto
  show ?case
  proof (cases "p' = []")
    case True
    then show ?thesis using Cons.prems(1) p by (auto split: option.splits)
  next
    case False
    from Cons.prems(1) have "walk fs a (cur @ [m]) ms = Inr x"
      using False p(2) by (auto split: option.splits node.splits if_splits)
    from Cons.IH [OF this False p(2)] show ?thesis using p by simp
  qed
qed

lemma mkdirs_changes:
  "mkdirs fs a cur ns = Inr fs' \<Longrightarrow> fs' q \<noteq> fs q \<Longrightarrow>
   \<exists>p. p \<noteq> [] \<and> prefix p ns \<and> fs (a, cur @ p) = None \<and>
       (q = (a, cur @ p) \<or> below (a, cur @ p) q)"
proof (induction ns arbitrary: fs cur)
  case Nil
  then show ?case by simp
next
  case (Cons n ns)
  show ?case
  proof (cases "fs (a, cur @ [n])")
    case None
    let ?fs1 = "create_dir fs (a, cur @ [n])"
    from Cons.prems(1) None have m: "mkdirs ?fs1 a (cur @ [n]) ns = Inr fs'" by simp
    have "q = (a, cur @ [n]) \<or> below (a, cur @ [n]) q"
    proof (cases "fs' q = ?fs1 q")
      case True
      with Cons.prems(2) have "?fs1 q \<noteq> fs q" by simp
      then show ?thesis by (auto simp: create_dir_def split: if_splits)
    next
      case False
      from Cons.IH [OF m False] obtain p where
        p: "p \<noteq> []" "q = (a, (cur @ [n]) @ p) \<or> below (a, (cur @ [n]) @ p) q" by blast
      then show ?thesis by (auto simp: below_def strict_prefix_def prefix_def)
    qed
    then show ?thesis using None by (intro exI [of _ "[n]"]) simp
  next
    case (Some nd)
    show ?thesis
    proof (cases nd)
      case (File d)
      with Some Cons.prems(1) show ?thesis by simp
    next
      case Dir
      with Some Cons.prems(1) have m: "mkdirs fs a (cur @ [n]) ns = Inr fs'" by simp
      from Cons.IH [OF m Cons.prems(2)] obtain p where
        "p \<noteq> []" "prefix p ns" "fs (a, (cur @ [n]) @ p) = None"
        "q = (a, (cur @ [n]) @ p) \<or> below (a, (cur @ [n]) @ p) q" by blast
      then show ?thesis by (intro exI [of _ "n # p"]) simp
    qed
  qed
qed

lemma mkdirs_keeps_walk:
  assumes "mkdirs fs b [] ns = Inr fs'" and "walk fs a [] ms = Inr x"
  shows "walk fs' a [] ms = Inr x"
proof -
  have "walk fs' a [] ms = walk fs a [] ms"
  proof (rule walk_cong)
    fix p :: "ustring list"
    assume p: "p \<noteq> []" "prefix p ms"
    show "fs' (a, [] @ p) = fs (a, [] @ p)"
    proof (rule ccontr)
      assume "fs' (a, [] @ p) \<noteq> fs (a, [] @ p)"
      from mkdirs_changes [OF assms(1) this] obtain p0 where
        p0: "p0 \<noteq> []" "fs (b, p0) = None" "(a, p) = (b, p0) \<or> below (b, p0) (a, p)"
        by auto
      then have "a = b" "prefix p0 p" by (auto simp: below_def)
      with p(2) have "prefix p0 ms" by (meson prefix_order.order_trans)
      from walk_ok_keys [OF assms(2) p0(1) this] p0(2) \<open>a = b\<close> show False by simp
    qed
  qed
  with assms(2) show ?thesis by simp
qed

lemma mkdirs_makes_dir:
  "mkdirs fs a cur ns = Inr fs' \<Longrightarrow> walk fs' a cur ns = Inr Dir"
proof (induction ns arbitrary: fs cur)
  case Nil
  then show ?case by simp
next
  case (Cons n ns)
  have key: "fs' (a, cur @ [n]) = Some Dir"
    if m: "mkdirs fs1 a (cur @ [n]) ns = Inr fs'" and k: "fs1 (a, cur @ [n]) = Some Dir" for fs1
  proof (rule ccontr)
    assume "fs' (a, cur @ [n]) \<noteq> Some Dir"
    with k have "fs' (a, cur @ [n]) \<noteq> fs1 (a, cur @ [n])" by simp
    from mkdirs_changes [OF m this] show False
      by (auto simp: below_def strict_prefix_def prefix_def)
  qed
  show ?case
  proof (cases "fs (a, cur @ [n])")
    case None
    let ?fs1 = "create_dir fs (a, cur @ [n])"
    from Cons.prems None have m: "mkdirs ?fs1 a (cur @ [n]) ns = Inr fs'" by simp
    have "?fs1 (a, cur @ [n]) = Some Dir" by (simp add: create_dir_def)
    from key [OF m this] Cons.IH [OF m] show ?thesis by simp
  next
    case (Some nd)
    show ?thesis
    proof (cases nd)
      case (File d)
      with Some Cons.prems show ?thesis by simp
    next
      case Dir
      with Some Cons.prems have m: "mkdirs fs a (cur @ [n]) ns = Inr fs'" by simp
      from key [OF m] Some Dir Cons.IH [OF m] show ?thesis by simp
    qed
  qed
qed

lemma walk_snoc:
  "walk fs a cur (ns @ [n]) =
     (case walk fs a cur ns of
        Inl k \<Rightarrow> Inl k
      | Inr (File d) \<Rightarrow> Inl ENOTDIR
      | Inr Dir \<Rightarrow> (case fs (a, cur @ ns @ [n]) of None \<Rightarrow> Inl ENOENT | Some nd \<Rightarrow> Inr nd))"
proof (induction ns arbitrary: cur)
  case Nil
  show ?case by (simp split: option.splits node.splits)
next
  case (Cons m ms)
  show ?case using Cons.IH [of "cur @ [m]"]
    by (simp split: option.splits node.splits sum.splits)
qed

lemma mkdirs_id: "walk fs a cur ns = Inr Dir \<Longrightarrow> mkdirs fs a cur ns = Inr fs"
proof (induction ns arbitrary: cur)
  case Nil
  show ?case by simp
next
  case (Cons n ns)
  then show ?case by (auto split: option.splits node.splits if_splits)
qed

lemma mkdirs_fresh:
  "mkdirs fs a cur ns = Inr fs' \<Longrightarrow> walk fs a cur ns \<noteq> Inr Dir \<Longrightarrow>
   below (a, cur @ ns) q \<Longrightarrow> fs' q = None"
proof (induction ns arbitrary: fs cur)
  case Nil
  then show ?case by simp
next
  case (Cons n ns)
  show ?case
  proof (cases "fs (a, cur @ [n])")
    case None
    let ?fs1 = "create_dir fs (a, cur @ [n])"
    from Cons.prems(1) None have m: "mkdirs ?fs1 a (cur @ [n]) ns = Inr fs'" by simp
    from Cons.prems(3) have b: "below (a, (cur @ [n]) @ ns) q" by simp
    then have b1: "below (a, cur @ [n]) q"
      by (auto simp: below_def strict_prefix_def prefix_def)
    show ?thesis
    proof (cases "walk ?fs1 a (cur @ [n]) ns = Inr Dir")
      case True
      from mkdirs_id [OF True] m have "fs' = ?fs1" by simp
      with b1 show ?thesis by (auto simp: create_dir_def below_def)
    next
      case False
      from Cons.IH [OF m False b] show ?thesis .
    qed
  next
    case (Some nd)
    show ?thesis
    proof (cases nd)
      case (File d)
      with Some Cons.prems(1) show ?thesis by simp
    next
      case Dir
      with Some Cons.prems have m: "mkdirs fs a (cur @ [n]) ns = Inr fs'"
        and w: "walk fs a (cur @ [n]) ns \<noteq> Inr Dir" by simp_all
      from Cons.prems(3) have b: "below (a, (cur @ [n]) @ ns) q" by simp
      from Cons.IH [OF m w b] show ?thesis .
    qed
  qed
qed

lemma mkdirs_snoc:
  "mkdirs fs a cur ns = Inr fs1 \<Longrightarrow> p = (a, cur @ ns @ [n]) \<Longrightarrow>
   mkdirs fs a cur (ns @ [n]) =
     (case fs1 p of
        None \<Rightarrow> Inr (create_dir fs1 p)
      | Some (File d) \<Rightarrow> Inl EEXIST
      | Some Dir \<Rightarrow> Inr fs1)"
proof (induction ns arbitrary: fs cur)
  case Nil
  then show ?case by (simp split: option.splits node.splits)
next
  case (Cons m ms)
  from Cons.prems(2) have p: "p = (a, (cur @ [m]) @ ms @ [n])" by simp
  show ?case
  proof (cases "fs (a, cur @ [m])")
    case None
    with Cons.prems have "mkdirs (create_dir fs (a, cur @ [m])) a (cur @ [m]) ms = Inr fs1" by simp
    from Cons.IH [OF this p] None show ?thesis by simp
  next
    case (Some nd)
    show ?thesis
    proof (cases nd)
      case (File d)
      with Some Cons.prems show ?thesis by simp
    next
      case Dir
      with Some Cons.prems have "mkdirs fs a (cur @ [m]) ms = Inr fs1" by simp
      from Cons.IH [OF this p] Some Dir show ?thesis by simp
    qed
  qed
qed

lemma mkdirs_empty:
  "(\<And>q. below (a, cur) q \<Longrightarrow> fs q = None) \<Longrightarrow> \<exists>fs'. mkdirs fs a cur ns = Inr fs'"
proof (induction ns arbitrary: fs cur)
  case Nil
  show ?case by simp
next
  case (Cons n ns)
  have "below (a, cur) (a, cur @ [n])" by (simp add: below_def strict_prefix_def)
  from Cons.prems [OF this] have none: "fs (a, cur @ [n]) = None" .
  have "\<exists>fs'. mkdirs (create_dir fs (a, cur @ [n])) a (cur @ [n]) ns = Inr fs'"
  proof (rule Cons.IH)
    fix q
    assume "below (a, cur @ [n]) q"
    then show "create_dir fs (a, cur @ [n]) q = None"
      by (auto simp: create_dir_def below_def)
  qed
  with none show ?case by simp
qed

lemma mkdirs_blocked:
  "walk fs a cur ns = Inl ENOTDIR \<Longrightarrow> mkdirs fs a cur ns = Inl ENOTDIR"
  by (induction ns arbitrary: cur) (auto split: option.splits node.splits if_splits)

lemma mkdirs_file:
  "walk fs a cur ns = Inr (File d) \<Longrightarrow> mkdirs fs a cur ns = Inl EEXIST"
  by (induction ns arbitrary: cur) (auto split: option.splits node.splits if_splits)

lemma walk_errors: "walk fs a cur ns = Inl k \<Longrightarrow> k = ENOENT \<or> k = ENOTDIR"
  by (induction ns arbitrary: cur) (auto split: option.splits node.splits if_splits)

lemma mkdirs_missing:
  "walk fs a cur ns = Inl ENOENT \<Longrightarrow> \<exists>fs'. mkdirs fs a cur ns = Inr fs'"
proof (induction ns arbitrary: cur)
  case Nil
  then show ?case by simp
next
  case (Cons n ns)
  show ?case
  proof (cases "fs (a, cur @ [n])")
    case None
    have "\<exists>fs'. mkdirs (create_dir fs (a, cur @ [n])) a (cur @ [n]) ns = Inr fs'"
      by (rule mkdirs_empty) (auto simp: create_dir_def below_def)
    with None show ?thesis by simp
  next
    case (Some nd)
    show ?thesis
    proof (cases nd)
      case (File d)
      with Some Cons.prems show ?thesis by (simp split: if_splits)
    next
      case Dir
      with Some Cons.prems Cons.IH [of "cur @ [n]"] show ?thesis by simp
    qed
  qed
qed

subsection \<open>Path texts\<close>

lemma split_slash_nonempty: "split_slash s \<noteq> []"
  by (induction s) (auto split: list.splits)

lemma split_slash_append: "split_slash (xs @ 47 # ys) = split_slash xs @ split_slash ys"
proof (induction xs)
  case Nil
  show ?case by simp
next
  case (Cons c cs)
  obtain h t where ht: "split_slash cs = h # t"
    using split_slash_nonempty [of cs] by (cases "split_slash cs") auto
  with Cons show ?case by simp
qed

lemma split_slash_plain: "47 \<notin> set t \<Longrightarrow> split_slash t = [t]"
  by (induction t) auto

lemma split_slash_slashfree: "n \<in> set (split_slash s) \<Longrightarrow> 47 \<notin> set n"
proof (induction s arbitrary: n)
  case Nil
  then show ?case by simp
next
  case (Cons c cs)
  obtain h t where ht: "split_slash cs = h # t"
    using split_slash_nonempty [of cs] by (cases "split_slash cs") auto
  show ?case
  proof (cases "c = 47")
    case True
    with Cons show ?thesis by auto
  next
    case False
    with Cons.prems ht have "n = c # h \<or> n \<in> set t" by simp
    with Cons.IH [of h] Cons.IH [of n] ht False show ?thesis by auto
  qed
qed

lemma names_Nil: "names [] = []"
  by (simp add: names_def)

lemma names_append: "names (xs @ 47 # ys) = names xs @ names ys"
  by (simp add: names_def split_slash_append)

lemma names_plain: "47 \<notin> set t \<Longrightarrow> names t = (if t = [] then [] else [t])"
  by (simp add: names_def split_slash_plain)

lemma names_slashes: "names (xs @ replicate k 47) = names xs"
proof (induction k)
  case 0
  show ?case by simp
next
  case (Suc k)
  have "xs @ replicate (Suc k) 47 = (xs @ replicate k 47) @ 47 # []"
    by (simp add: replicate_append_same)
  then have "names (xs @ replicate (Suc k) 47) = names (xs @ replicate k 47) @ names []"
    using names_append [of "xs @ replicate k 47" "[]"] by simp
  with Suc show ?case by (simp add: names_Nil)
qed

lemma resolve_names: "snd (resolve s) = filter (\<lambda>n. n \<noteq> [46]) (names s)"
  by (simp add: resolve_def names_def conj_commute)

lemma posix_split_facts:
  assumes "posix_split p = (h, t)"
  shows "names p = names h @ (if t = [] then [] else [t])" and "prefix h p"
    and "47 \<notin> set t" and "h = [] \<or> last h \<noteq> 47 \<or> names h = []"
proof -
  define pre where "pre = rev (dropWhile (\<lambda>c. c \<noteq> 47) (rev p))"
  have eq: "(h, t) = (if pre \<noteq> [] \<and> pre \<noteq> replicate (length pre) 47
                      then rev (dropWhile (\<lambda>c. c = 47) (rev pre)) else pre,
                      rev (takeWhile (\<lambda>c. c \<noteq> 47) (rev p)))"
    using assms unfolding posix_split_def Let_def pre_def by (rule sym)
  from eq have t: "t = rev (takeWhile (\<lambda>c. c \<noteq> 47) (rev p))"
    by (simp only: prod.inject)
  from eq have h: "h = (if pre \<noteq> [] \<and> pre \<noteq> replicate (length pre) 47
                then rev (dropWhile (\<lambda>c. c = 47) (rev pre)) else pre)"
    by (simp only: prod.inject)
  have "rev p = rev t @ rev pre"
    unfolding t pre_def by (simp only: rev_rev_ident takeWhile_dropWhile_id)
  then have "rev (rev p) = rev (rev t @ rev pre)" by (rule arg_cong)
  then have p: "p = pre @ t" by (simp only: rev_append rev_rev_ident)
  show nt: "47 \<notin> set t" unfolding t by (auto dest: set_takeWhileD)
  have pre: "pre = [] \<or> last pre = 47"
  proof (cases "dropWhile (\<lambda>c. c \<noteq> 47) (rev p) = []")
    case True
    then show ?thesis by (simp add: pre_def)
  next
    case False
    then have "hd (dropWhile (\<lambda>c. c \<noteq> 47) (rev p)) = 47"
      using hd_dropWhile [of "\<lambda>c. c \<noteq> 47" "rev p"] by simp
    with False show ?thesis by (simp add: pre_def last_rev)
  qed
  have np: "names p = names pre @ names t"
  proof (cases "pre = []")
    case True
    with p show ?thesis by (simp add: names_Nil)
  next
    case False
    with pre have "pre = butlast pre @ [47]" by (metis append_butlast_last_id)
    then obtain q where q: "pre = q @ [47]" ..
    with p have "p = q @ 47 # t" by simp
    then have "names p = names q @ names t" by (simp add: names_append)
    moreover have "names pre = names q"
      using names_append [of q "[]"] q by (simp add: names_Nil)
    ultimately show ?thesis by simp
  qed
  have strip: "\<exists>k. pre = h @ replicate k 47"
  proof (cases "pre \<noteq> [] \<and> pre \<noteq> replicate (length pre) 47")
    case True
    define tw where "tw = takeWhile (\<lambda>c. c = 47) (rev pre)"
    have hh: "h = rev (dropWhile (\<lambda>c. c = 47) (rev pre))"
      using h by (simp only: if_P [OF True])
    have "rev pre = tw @ rev h"
      unfolding hh tw_def by (simp only: rev_rev_ident takeWhile_dropWhile_id)
    then have "rev (rev pre) = rev (tw @ rev h)" by (rule arg_cong)
    then have a: "pre = h @ rev tw" by (simp only: rev_append rev_rev_ident)
    have "\<forall>y \<in> set (rev tw). y = 47" unfolding tw_def by (auto dest: set_takeWhileD)
    then have "replicate (length (rev tw)) 47 = rev tw" by (rule replicate_length_same)
    with a have "pre = h @ replicate (length (rev tw)) 47" by simp
    then show ?thesis ..
  next
    case False
    have "h = pre" using h by (simp only: if_not_P [OF False])
    then have "pre = h @ replicate 0 47" by simp
    then show ?thesis ..
  qed
  then obtain k where k: "pre = h @ replicate k 47" ..
  with p have "p = h @ (replicate k 47 @ t)" by simp
  then show "prefix h p" by (rule prefixI)
  from k have "names pre = names h" by (simp add: names_slashes)
  with np nt show "names p = names h @ (if t = [] then [] else [t])"
    by (simp add: names_plain)
  show "h = [] \<or> last h \<noteq> 47 \<or> names h = []"
  proof (cases "pre \<noteq> [] \<and> pre \<noteq> replicate (length pre) 47")
    case True
    have hh: "h = rev (dropWhile (\<lambda>c. c = 47) (rev pre))"
      using h by (simp only: if_P [OF True])
    show ?thesis
    proof (cases "dropWhile (\<lambda>c. c = 47) (rev pre) = []")
      case True
      with hh show ?thesis by simp
    next
      case False
      then have "hd (dropWhile (\<lambda>c. c = 47) (rev pre)) \<noteq> 47"
        using hd_dropWhile [of "\<lambda>c. c = 47" "rev pre"] by simp
      with False hh show ?thesis by (simp add: last_rev)
    qed
  next
    case False
    have hp: "h = pre" using h by (simp only: if_not_P [OF False])
    have "names pre = []"
    proof (cases "pre = []")
      case True
      then show ?thesis by (simp add: names_Nil)
    next
      case ne: False
      with False have "pre = [] @ replicate (length pre) 47" by simp
      then have "names pre = names []" by (metis names_slashes)
      then show ?thesis by (simp add: names_Nil)
    qed
    with hp show ?thesis by simp
  qed
qed

lemma dir_split_facts:
  assumes "dir_split name = (h, t)"
  shows "names name = names h @ (if t = [] then [] else [t])" and "prefix h name"
    and "47 \<notin> set t" and "h = [] \<or> last h \<noteq> 47 \<or> names h = []"
proof -
  obtain h0 t0 where s0: "posix_split name = (h0, t0)" by fastforce
  show "names name = names h @ (if t = [] then [] else [t])" "prefix h name"
    "47 \<notin> set t" "h = [] \<or> last h \<noteq> 47 \<or> names h = []"
  proof -
    show "names name = names h @ (if t = [] then [] else [t])"
    proof (cases "t0 = []")
      case True
      with assms s0 have s1: "posix_split h0 = (h, t)" by (simp add: dir_split_def)
      from posix_split_facts(1) [OF s0] True posix_split_facts(1) [OF s1] show ?thesis by simp
    next
      case False
      with assms s0 have "posix_split name = (h, t)" by (simp add: dir_split_def)
      from posix_split_facts(1) [OF this] show ?thesis .
    qed
    show "prefix h name"
    proof (cases "t0 = []")
      case True
      with assms s0 have s1: "posix_split h0 = (h, t)" by (simp add: dir_split_def)
      from posix_split_facts(2) [OF s0] posix_split_facts(2) [OF s1] show ?thesis
        by (meson prefix_order.order_trans)
    next
      case False
      with assms s0 have "posix_split name = (h, t)" by (simp add: dir_split_def)
      from posix_split_facts(2) [OF this] show ?thesis .
    qed
    show "47 \<notin> set t"
    proof (cases "t0 = []")
      case True
      with assms s0 have s1: "posix_split h0 = (h, t)" by (simp add: dir_split_def)
      from posix_split_facts(3) [OF s1] show ?thesis .
    next
      case False
      with assms s0 have "posix_split name = (h, t)" by (simp add: dir_split_def)
      from posix_split_facts(3) [OF this] show ?thesis .
    qed
    show "h = [] \<or> last h \<noteq> 47 \<or> names h = []"
    proof (cases "t0 = []")
      case True
      with assms s0 have s1: "posix_split h0 = (h, t)" by (simp add: dir_split_def)
      from posix_split_facts(4) [OF s1] show ?thesis .
    next
      case False
      with assms s0 have "posix_split name = (h, t)" by (simp add: dir_split_def)
      from posix_split_facts(4) [OF this] show ?thesis .
    qed
  qed
qed

subsection \<open>The library calls that create directories\<close>

lemma stat_Dir:
  "stat fs s = Inr Dir \<longleftrightarrow> s \<noteq> [] \<and> walk fs (fst (resolve s)) [] (snd (resolve s)) = Inr Dir"
  by (auto simp: stat_def split: sum.splits node.splits if_splits)

lemma stat_File:
  "stat fs s = Inr (File d) \<longleftrightarrow>
     s \<noteq> [] \<and> walk fs (fst (resolve s)) [] (snd (resolve s)) = Inr (File d) \<and> \<not> wants_dir s"
  by (auto simp: stat_def split: sum.splits node.splits if_splits)

lemma stat_errors: "stat fs s = Inl k \<Longrightarrow> k = ENOENT \<or> k = ENOTDIR"
  by (auto simp: stat_def split: sum.splits node.splits if_splits dest: walk_errors)

lemma dir_split_resolve:
  assumes "dir_split name = (h, t)" and "h \<noteq> []" and "t \<noteq> []"
  shows "fst (resolve name) = fst (resolve h)"
    and "snd (resolve name) = snd (resolve h) @ (if t = [46] then [] else [t])"
    and "dot_last name \<longleftrightarrow> t = [46]"
    and "name \<noteq> []"
    and "last h = 47 \<Longrightarrow> snd (resolve h) = []"
proof -
  from dir_split_facts(1) [OF assms(1)] assms(3) have n: "names name = names h @ [t]" by simp
  from dir_split_facts(2) [OF assms(1)] obtain zs where z: "name = h @ zs" by (auto simp: prefix_def)
  from assms(2) obtain c cs where h: "h = c # cs" by (cases h) auto
  with z show "fst (resolve name) = fst (resolve h)" by (simp add: resolve_def)
  from n show "snd (resolve name) = snd (resolve h) @ (if t = [46] then [] else [t])"
    by (simp add: resolve_names)
  from n show "dot_last name \<longleftrightarrow> t = [46]" by (simp add: dot_last_def)
  from z h show "name \<noteq> []" by simp
  assume "last h = 47"
  with dir_split_facts(4) [OF assms(1)] assms(2) have "names h = []" by simp
  then show "snd (resolve h) = []" by (simp add: resolve_names)
qed

lemma os_mkdir_ok:
  assumes "os_mkdir fs s = Inr fs'"
  shows "s \<noteq> []" and "\<not> dot_last s" and "snd (resolve s) \<noteq> []"
    and "walk fs (fst (resolve s)) [] (butlast (snd (resolve s))) = Inr Dir"
    and "fs (resolve s) = None" and "fs' = create_dir fs (resolve s)"
  using assms
  by (auto simp: os_mkdir_def split: if_splits sum.splits node.splits option.splits)

lemma os_mkdir_exists:
  assumes "os_mkdir fs s = Inl EEXIST"
  shows "\<not> isl (stat fs s) \<or> last s = 47"
proof (cases "s = [] \<or> dot_last s \<or> snd (resolve s) = []")
  case True
  with assms show ?thesis
    by (auto simp: os_mkdir_def split: if_splits sum.splits dest: stat_errors)
next
  case False
  let ?a = "fst (resolve s)" and ?ns = "snd (resolve s)"
  from False have ns: "?ns = butlast ?ns @ [last ?ns]" by simp
  from False assms have pw: "walk fs ?a [] (butlast ?ns) = Inr Dir"
    by (auto simp: os_mkdir_def split: if_splits sum.splits node.splits dest: walk_errors)
  from False assms pw obtain nd where nd: "fs (resolve s) = Some nd"
    by (auto simp: os_mkdir_def split: option.splits)
  have "(?a, [] @ butlast ?ns @ [last ?ns]) = resolve s" using ns by simp
  with pw nd have "walk fs ?a [] (butlast ?ns @ [last ?ns]) = Inr nd"
    by (simp add: walk_snoc)
  with ns have w: "walk fs ?a [] ?ns = Inr nd" by simp
  show ?thesis
  proof (cases "last s = 47")
    case True
    then show ?thesis by simp
  next
    case nl: False
    with False have "\<not> wants_dir s" by (simp add: wants_dir_def)
    with w False have "stat fs s = Inr nd" by (cases nd) (simp_all add: stat_def)
    then show ?thesis by simp
  qed
qed

lemma os_mkdir_errors: "os_mkdir fs s = Inl k \<Longrightarrow> k = ENOENT \<or> k = ENOTDIR \<or> k = EEXIST"
  by (auto simp: os_mkdir_def split: if_splits sum.splits node.splits option.splits
      dest: walk_errors stat_errors)

lemma os_mkdir_mkdirs:
  assumes "os_mkdir fs s = Inr fs'"
  shows "mkdirs fs (fst (resolve s)) [] (snd (resolve s)) = Inr fs'"
proof -
  let ?a = "fst (resolve s)" and ?ns = "snd (resolve s)"
  note f = os_mkdir_ok [OF assms]
  from f(3) have ns: "?ns = butlast ?ns @ [last ?ns]" by simp
  have p: "resolve s = (?a, [] @ butlast ?ns @ [last ?ns])" using ns by simp
  from mkdirs_id [OF f(4)] have "mkdirs fs ?a [] (butlast ?ns) = Inr fs" .
  from mkdirs_snoc [OF this p] f(5) f(6)
  have "mkdirs fs ?a [] (butlast ?ns @ [last ?ns]) = Inr fs'" by simp
  with ns show ?thesis by simp
qed

lemma mkdir_exist_ok_mkdirs:
  assumes "mkdir_exist_ok fs name = (r, fs')"
  shows "case r of
           Inr u \<Rightarrow> name \<noteq> [] \<and> mkdirs fs (fst (resolve name)) [] (snd (resolve name)) = Inr fs'
         | Inl e \<Rightarrow> fs' = fs \<and> (\<exists>k. e = OSError k name \<and>
                      (k = EEXIST \<longrightarrow> \<not> isl (stat fs name) \<or> last name = 47))"
proof (cases "os_mkdir fs name")
  case (Inr fs2)
  with assms have "r = Inr ()" "fs' = fs2" by (simp_all add: mkdir_exist_ok_def)
  with os_mkdir_mkdirs [OF Inr] os_mkdir_ok(1) [OF Inr] show ?thesis by simp
next
  case (Inl k)
  show ?thesis
  proof (cases "stat fs name = Inr Dir")
    case True
    with Inl assms have "r = Inr ()" "fs' = fs" by (simp_all add: mkdir_exist_ok_def)
    moreover from True have "name \<noteq> []"
      "walk fs (fst (resolve name)) [] (snd (resolve name)) = Inr Dir"
      by (simp_all add: stat_Dir)
    ultimately show ?thesis using mkdirs_id by simp
  next
    case False
    with Inl assms have "r = Inl (OSError k name)" "fs' = fs"
      by (simp_all add: mkdir_exist_ok_def)
    then show ?thesis using os_mkdir_exists [of fs name] Inl by auto
  qed
qed

lemma makedirs_mkdirs:
  "makedirs fs name = (r, fs') \<Longrightarrow>
     (case r of
        Inr u \<Rightarrow> name \<noteq> [] \<and> mkdirs fs (fst (resolve name)) [] (snd (resolve name)) = Inr fs'
      | Inl e \<Rightarrow> fs' = fs \<and> (\<exists>k f. e = OSError k f \<and>
                   (k = EEXIST \<longrightarrow> \<not> isl (stat fs name) \<or> last name = 47)))"
proof (induction fs name arbitrary: r fs' rule: makedirs.induct)
  case (1 fs name)
  obtain head tail where ds: "dir_split name = (head, tail)" by fastforce
  show ?case
  proof (cases "head \<noteq> [] \<and> tail \<noteq> [] \<and> isl (stat fs head)")
    case False
    with "1.prems" ds have "mkdir_exist_ok fs name = (r, fs')"
      by (subst (asm) makedirs.simps) (auto simp: Let_def)
    from mkdir_exist_ok_mkdirs [OF this] show ?thesis
      by (cases r) auto
  next
    case True
    obtain r1 fs1 where inner: "makedirs fs head = (r1, fs1)" by fastforce
    from "1.prems" ds True inner have outer:
      "(if isl r1 \<and> \<not> file_exists_error (projl r1) then (r1, fs1)
        else if tail = [46] then (Inr (), fs1)
        else mkdir_exist_ok fs1 name) = (r, fs')"
      by (subst (asm) makedirs.simps) (simp add: Let_def)
    have IH: "case r1 of
        Inr u \<Rightarrow> head \<noteq> [] \<and> mkdirs fs (fst (resolve head)) [] (snd (resolve head)) = Inr fs1
      | Inl e \<Rightarrow> fs1 = fs \<and> (\<exists>k f. e = OSError k f \<and>
                   (k = EEXIST \<longrightarrow> \<not> isl (stat fs head) \<or> last head = 47))"
    proof -
      have hd: "head = fst (dir_split name)" "tail = snd (dir_split name)" using ds by simp_all
      from "1.IH" [OF hd True inner] show ?thesis .
    qed
    from True have hne: "head \<noteq> []" and tne: "tail \<noteq> []" and miss: "isl (stat fs head)"
      by simp_all
    note rs = dir_split_resolve [OF ds hne tne]
    have notdir: "walk fs (fst (resolve head)) [] (snd (resolve head)) \<noteq> Inr Dir"
      using miss hne by (auto simp: stat_def)
    show ?thesis
    proof (cases r1)
      case (Inl e1)
      with IH obtain k f where e1: "fs1 = fs" "e1 = OSError k f"
        "k = EEXIST \<longrightarrow> \<not> isl (stat fs head) \<or> last head = 47" by auto
      have "k \<noteq> EEXIST"
      proof
        assume "k = EEXIST"
        with e1(3) miss have "last head = 47" by simp
        from rs(5) [OF this] notdir show False by simp
      qed
      with outer Inl e1 have "r = Inl (OSError k f)" "fs' = fs" by simp_all
      with \<open>k \<noteq> EEXIST\<close> show ?thesis by simp
    next
      case (Inr u)
      with IH have m: "mkdirs fs (fst (resolve head)) [] (snd (resolve head)) = Inr fs1" by simp
      show ?thesis
      proof (cases "tail = [46]")
        case True
        with outer Inr have "r = Inr ()" "fs' = fs1" by simp_all
        with m rs(1,2,4) True show ?thesis by simp
      next
        case False
        let ?a = "fst (resolve name)" and ?hs = "snd (resolve head)"
        from rs(2) False have ns: "snd (resolve name) = ?hs @ [tail]" by simp
        from rs(1) ns have p: "resolve name = (fst (resolve head), [] @ ?hs @ [tail])"
          by (simp add: prod_eq_iff)
        have "below (fst (resolve head), [] @ ?hs) (resolve name)"
          using p by (simp add: below_def strict_prefix_def)
        from mkdirs_fresh [OF m notdir this] have free: "fs1 (resolve name) = None" .
        from mkdirs_makes_dir [OF m] rs(1) ns
        have pw: "walk fs1 ?a [] (butlast (snd (resolve name))) = Inr Dir" by simp
        from rs(3) False have nd: "\<not> dot_last name" by simp
        from rs(4) nd ns pw free
        have "os_mkdir fs1 name = Inr (create_dir fs1 (resolve name))"
          by (simp add: os_mkdir_def)
        then have "mkdir_exist_ok fs1 name = (Inr (), create_dir fs1 (resolve name))"
          by (simp add: mkdir_exist_ok_def)
        with outer Inr False have res: "r = Inr ()" "fs' = create_dir fs1 (resolve name)"
          by simp_all
        from mkdirs_snoc [OF m p] free
        have "mkdirs fs (fst (resolve head)) [] (?hs @ [tail]) = Inr (create_dir fs1 (resolve name))"
          by simp
        with res rs(1,4) ns show ?thesis by simp
      qed
    qed
  qed
qed

lemma names_join:
  "\<forall>n \<in> set parts. n \<noteq> [] \<and> 47 \<notin> set n \<Longrightarrow> names (join [47] parts) = parts"
proof (induction "[47] :: ustring" parts rule: join.induct)
  case 1
  show ?case by (simp add: names_Nil)
next
  case (2 x)
  then show ?case by (simp add: names_plain)
next
  case (3 x y ys)
  then have "names (x @ 47 # join [47] (y # ys)) = names x @ (y # ys)"
    by (simp only: names_append) simp
  with 3 show ?case by (simp add: names_plain)
qed

lemma path_str_resolve:
  assumes "\<forall>n \<in> set parts. n \<noteq> [] \<and> n \<noteq> [46] \<and> 47 \<notin> set n"
    and "root = [] \<or> root = [47] \<or> root = [47, 47]"
  shows "path_str root parts \<noteq> []"
    and "resolve (path_str root parts) = (root \<noteq> [], parts)"
    and "parts \<noteq> [] \<Longrightarrow> \<not> dot_last (path_str root parts)"
proof -
  from assms(1) have c: "\<forall>n \<in> set parts. n \<noteq> [] \<and> 47 \<notin> set n" by simp
  have nj: "names (join [47] parts) = parts" using names_join [OF c] .
  have nr: "names (root @ s) = names s" for s
  proof -
    have "names (47 # s) = names s" for s
      using names_append [of "[]" s] by (simp add: names_Nil)
    with assms(2) show ?thesis by auto
  qed
  have jn: "parts \<noteq> [] \<Longrightarrow> join [47] parts \<noteq> [] \<and> hd (join [47] parts) \<noteq> 47"
  proof -
    assume "parts \<noteq> []"
    then obtain x xs where p: "parts = x # xs" by (cases parts) auto
    with c obtain a as where x: "x = a # as" "a \<noteq> 47" by (cases x) auto
    show ?thesis using p x by (cases xs) simp_all
  qed
  show ne: "path_str root parts \<noteq> []"
    using jn by (auto simp: path_str_def)
  have n: "names (path_str root parts) = (if root = [] \<and> parts = [] then [[46]] else parts)"
    using nj nr [of "join [47] parts"] by (simp add: path_str_def names_plain)
  have f: "fst (resolve (path_str root parts)) = (root \<noteq> [])"
  proof (cases "root = []")
    case True
    show ?thesis
    proof (cases "parts = []")
      case True
      with \<open>root = []\<close> show ?thesis by (simp add: path_str_def resolve_def)
    next
      case False
      with jn obtain a as where "join [47] parts = a # as" "a \<noteq> 47"
        by (cases "join [47] parts") auto
      with True False show ?thesis by (simp add: path_str_def resolve_def)
    qed
  next
    case False
    with assms(2) show ?thesis by (auto simp: path_str_def resolve_def)
  qed
  have "snd (resolve (path_str root parts)) = parts"
    using n assms(1) by (auto simp: resolve_names filter_id_conv)
  with f show "resolve (path_str root parts) = (root \<noteq> [], parts)"
    by (simp add: prod_eq_iff)
  assume pn: "parts \<noteq> []"
  with n have "names (path_str root parts) = butlast parts @ [last parts]" by simp
  moreover from pn assms(1) have "last parts \<noteq> [46]" by simp
  ultimately show "\<not> dot_last (path_str root parts)" by (simp add: dot_last_def)
qed

lemma pathlib_mkdir_mkdirs:
  assumes "root = [] \<or> root = [47] \<or> root = [47, 47]"
  shows "\<forall>n \<in> set parts. n \<noteq> [] \<and> n \<noteq> [46] \<and> 47 \<notin> set n \<Longrightarrow>
   pathlib_mkdir fs root parts True =
     (case mkdirs fs (root \<noteq> []) [] parts of
        Inl k \<Rightarrow> (Inl (OSError k (path_str root parts)), fs)
      | Inr fs' \<Rightarrow> (Inr (), fs'))"
proof (induction parts arbitrary: fs rule: rev_induct)
  case Nil
  have c: "\<forall>n \<in> set ([] :: ustring list). n \<noteq> [] \<and> n \<noteq> [46] \<and> 47 \<notin> set n" by simp
  note r = path_str_resolve(1,2) [OF c assms]
  from r have "stat fs (path_str root []) = Inr Dir" by (simp add: stat_Dir)
  with r show ?case
    by (subst pathlib_mkdir.simps) (simp add: os_mkdir_def)
next
  case (snoc p ps)
  let ?a = "root \<noteq> []" and ?s = "path_str root (ps @ [p])"
  from snoc.prems have cps: "\<forall>n \<in> set ps. n \<noteq> [] \<and> n \<noteq> [46] \<and> 47 \<notin> set n" by simp
  note IH = snoc.IH [OF cps]
  have ne: "ps @ [p] \<noteq> []" by simp
  note r = path_str_resolve(1,2) [OF snoc.prems assms] path_str_resolve(3) [OF snoc.prems assms ne]
  have key: "(?a, [] @ ps @ [p]) = resolve ?s" using r(2) by simp
  have om: "os_mkdir fs1 ?s =
     (case walk fs1 ?a [] ps of
        Inl k \<Rightarrow> Inl k
      | Inr (File d) \<Rightarrow> Inl ENOTDIR
      | Inr Dir \<Rightarrow> (case fs1 (?a, ps @ [p]) of Some nd \<Rightarrow> Inl EEXIST
                     | None \<Rightarrow> Inr (create_dir fs1 (?a, ps @ [p]))))" for fs1
    using r by (simp add: os_mkdir_def cong: sum.case_cong node.case_cong option.case_cong)
  have st: "stat fs1 ?s = Inr Dir \<longleftrightarrow> walk fs1 ?a [] (ps @ [p]) = Inr Dir" for fs1
    using r by (simp add: stat_Dir)
  show ?case
  proof (cases "walk fs ?a [] ps")
    case (Inl k)
    from walk_errors [OF Inl] show ?thesis
    proof
      assume k: "k = ENOENT"
      from mkdirs_missing [of fs ?a "[]" ps] Inl k obtain fs1 where
        m: "mkdirs fs ?a [] ps = Inr fs1" by auto
      with IH have i: "pathlib_mkdir fs root ps True = (Inr (), fs1)" by simp
      have nd: "walk fs ?a [] ps \<noteq> Inr Dir" using Inl by simp
      have "below (?a, [] @ ps) (?a, ps @ [p])" by (simp add: below_def strict_prefix_def)
      from mkdirs_fresh [OF m nd this] have free: "fs1 (?a, ps @ [p]) = None" .
      from mkdirs_makes_dir [OF m] have pw: "walk fs1 ?a [] ps = Inr Dir" .
      have again: "pathlib_mkdir fs1 root (ps @ [p]) False = (Inr (), create_dir fs1 (?a, ps @ [p]))"
        by (subst pathlib_mkdir.simps) (simp add: om pw free)
      have "mkdirs fs ?a [] (ps @ [p]) = Inr (create_dir fs1 (?a, ps @ [p]))"
        using mkdirs_snoc [OF m, of "(?a, ps @ [p])" p] free by simp
      moreover have "pathlib_mkdir fs root (ps @ [p]) True = (Inr (), create_dir fs1 (?a, ps @ [p]))"
        by (subst pathlib_mkdir.simps) (simp add: om Inl k i again)
      ultimately show ?thesis by simp
    next
      assume k: "k = ENOTDIR"
      have w: "walk fs ?a [] (ps @ [p]) = Inl ENOTDIR" using Inl k by (simp add: walk_snoc)
      then have "\<not> stat fs ?s = Inr Dir" by (simp add: st)
      then have "pathlib_mkdir fs root (ps @ [p]) True = (Inl (OSError ENOTDIR ?s), fs)"
        by (subst pathlib_mkdir.simps) (simp add: om Inl k)
      with mkdirs_blocked [OF w] show ?thesis by simp
    qed
  next
    case (Inr nd)
    show ?thesis
    proof (cases nd)
      case (File d)
      have w: "walk fs ?a [] (ps @ [p]) = Inl ENOTDIR" using Inr File by (simp add: walk_snoc)
      then have "\<not> stat fs ?s = Inr Dir" by (simp add: st)
      then have "pathlib_mkdir fs root (ps @ [p]) True = (Inl (OSError ENOTDIR ?s), fs)"
        by (subst pathlib_mkdir.simps) (simp add: om Inr File)
      with mkdirs_blocked [OF w] show ?thesis by simp
    next
      case Dir
      with Inr have pw: "walk fs ?a [] ps = Inr Dir" by simp
      from mkdirs_id [OF pw] have m: "mkdirs fs ?a [] ps = Inr fs" .
      note sn = mkdirs_snoc [OF m, of "(?a, ps @ [p])" p]
      show ?thesis
      proof (cases "fs (?a, ps @ [p])")
        case None
        have "pathlib_mkdir fs root (ps @ [p]) True = (Inr (), create_dir fs (?a, ps @ [p]))"
          by (subst pathlib_mkdir.simps) (simp add: om pw None)
        with sn None show ?thesis by simp
      next
        case (Some x)
        have w: "walk fs ?a [] (ps @ [p]) = Inr x" using pw Some by (simp add: walk_snoc)
        show ?thesis
        proof (cases x)
          case (File d)
          with w have "\<not> stat fs ?s = Inr Dir" by (simp add: st)
          then have "pathlib_mkdir fs root (ps @ [p]) True = (Inl (OSError EEXIST ?s), fs)"
            by (subst pathlib_mkdir.simps) (simp add: om pw Some)
          with sn Some File show ?thesis by simp
        next
          case Dir
          with w have "stat fs ?s = Inr Dir" by (simp add: st)
          then have "pathlib_mkdir fs root (ps @ [p]) True = (Inr (), fs)"
            by (subst pathlib_mkdir.simps) (simp add: om pw Some)
          with sn Some Dir show ?thesis by simp
        qed
      qed
    qed
  qed
qed

lemma path_root_cases: "path_root s = [] \<or> path_root s = [47] \<or> path_root s = [47, 47]"
  by (simp add: path_root_def)

lemma path_root_abs: "(path_root s \<noteq> []) = fst (resolve s)"
  by (cases s) (auto simp: path_root_def resolve_def)

lemma resolve_clean: "n \<in> set (snd (resolve s)) \<Longrightarrow> n \<noteq> [] \<and> n \<noteq> [46] \<and> 47 \<notin> set n"
  by (auto simp: resolve_def dest: split_slash_slashfree)

lemma path_parent_mkdir_mkdirs:
  "path_parent_mkdir s w =
     (case mkdirs (files w) (fst (resolve s)) [] (butlast (snd (resolve s))) of
        Inl k \<Rightarrow> (Inl (OSError k (path_str (path_root s) (butlast (snd (resolve s))))), w)
      | Inr fs' \<Rightarrow> (Inr (), w\<lparr>files := fs'\<rparr>))"
proof -
  have c: "\<forall>n \<in> set (butlast (snd (resolve s))). n \<noteq> [] \<and> n \<noteq> [46] \<and> 47 \<notin> set n"
    using resolve_clean [of _ s] by (meson in_set_butlastD)
  from pathlib_mkdir_mkdirs [OF path_root_cases c, of "files w"] show ?thesis
    by (simp add: path_parent_mkdir_def path_root_abs split: sum.splits)
qed

subsection \<open>What computations add to the trace\<close>

lemma adds_return: "adds P (io_return x)"
  by (simp add: adds_def io_return_def)

lemma adds_raise: "adds P (io_raise e)"
  by (simp add: adds_def io_raise_def)

lemma adds_bind: "adds P m \<Longrightarrow> (\<And>x. adds P (f x)) \<Longrightarrow> adds P (io_bind m f)"
proof -
  assume m: "adds P m" and f: "\<And>x. adds P (f x)"
  show ?thesis
    unfolding adds_def
  proof
    fix w
    from m obtain evs where e1: "trace (snd (m w)) = trace w @ evs" "list_all P evs"
      unfolding adds_def by blast
    show "\<exists>evs. trace (snd (io_bind m f w)) = trace w @ evs \<and> list_all P evs"
    proof (cases "m w")
      case (Pair r w1)
      show ?thesis
      proof (cases r)
        case (Inl e)
        with Pair e1 show ?thesis by (auto simp: io_bind_def)
      next
        case (Inr x)
        from f [of x] obtain evs2 where
          e2: "trace (snd (f x w1)) = trace w1 @ evs2" "list_all P evs2"
          unfolding adds_def by blast
        with Pair Inr e1 show ?thesis
          by (intro exI [of _ "evs @ evs2"]) (simp add: io_bind_def)
      qed
    qed
  qed
qed

lemma adds_try: "adds P m \<Longrightarrow> (\<And>e. adds P (h e)) \<Longrightarrow> adds P (io_try m h)"
proof -
  assume m: "adds P m" and h: "\<And>e. adds P (h e)"
  show ?thesis
    unfolding adds_def
  proof
    fix w
    from m obtain evs where e1: "trace (snd (m w)) = trace w @ evs" "list_all P evs"
      unfolding adds_def by blast
    show "\<exists>evs. trace (snd (io_try m h w)) = trace w @ evs \<and> list_all P evs"
    proof (cases "m w")
      case (Pair r w1)
      show ?thesis
      proof (cases r)
        case (Inr x)
        with Pair e1 show ?thesis by (auto simp: io_try_def)
      next
        case (Inl e)
        from h [of e] obtain evs2 where
          e2: "trace (snd (h e w1)) = trace w1 @ evs2" "list_all P evs2"
          unfolding adds_def by blast
        with Pair Inl e1 show ?thesis
          by (intro exI [of _ "evs @ evs2"]) (simp add: io_try_def)
      qed
    qed
  qed
qed

lemma adds_if: "adds P m \<Longrightarrow> adds P n \<Longrightarrow> adds P (if b then m else n)"
  by simp

lemma adds_print: "P (Print s) \<Longrightarrow> adds P (print_line s)"
  by (simp add: adds_def print_line_def emit_def)

lemma adds_exists: "P (Exists s) \<Longrightarrow> adds P (os_path_exists s)"
  by (simp add: adds_def os_path_exists_def emit_def)

lemma adds_getsize: "P (GetSize s) \<Longrightarrow> adds P (os_path_getsize E s)"
  by (auto simp: adds_def os_path_getsize_def emit_def split: sum.splits node.splits)

lemma adds_makedirs: "P (MakeDirs s) \<Longrightarrow> adds P (os_makedirs s)"
  by (auto simp: adds_def os_makedirs_def emit_def split: prod.splits sum.splits)

lemma adds_parent_mkdir: "adds P (path_parent_mkdir s)"
  by (auto simp: adds_def path_parent_mkdir_def split: prod.splits)

lemma adds_rmtree: "P (RmTree s) \<Longrightarrow> adds P (shutil_rmtree s)"
  by (auto simp: adds_def shutil_rmtree_def emit_def split: sum.splits node.splits)

lemma adds_open_append: "P (Append s t) \<Longrightarrow> adds P (open_append_write s t)"
  by (auto simp: adds_def open_append_write_def emit_def
      split: if_splits sum.splits node.splits option.splits)

lemma adds_subprocess: "P (Spawn cmd) \<Longrightarrow> adds P (subprocess_run E cmd)"
  by (auto simp: adds_def subprocess_run_def split: prod.splits)

lemma adds_now: "adds P datetime_now_strftime"
  by (simp add: adds_def datetime_now_strftime_def)

lemmas adds_intros = adds_return adds_raise adds_bind adds_try adds_if adds_print adds_exists
  adds_getsize adds_makedirs adds_parent_mkdir adds_rmtree adds_open_append adds_subprocess
  adds_now

lemma adds_run_command: "adds (\<lambda>e. \<not> is_append e) (run_command E cmd dry)"
  unfolding run_command_def Let_def by (intro adds_intros) simp_all

lemma adds_safe_rmtree: "adds (\<lambda>e. \<not> is_append e) (safe_rmtree p dry)"
  unfolding safe_rmtree_def by (intro adds_intros) simp_all

lemma adds_prefetch: "adds (\<lambda>e. \<not> is_append e) (prefetch_one E d acc)"
  unfolding prefetch_one_def Let_def by (intro adds_intros adds_run_command) simp_all

lemma adds_fasterq: "adds (\<lambda>e. \<not> is_append e) (fasterq_dump_one E d acc)"
  unfolding fasterq_dump_one_def Let_def by (intro adds_intros adds_run_command) simp_all

lemma adds_exists_nonempty: "adds is_query (exists_nonempty E p)"
  unfolding exists_nonempty_def by (intro adds_intros) simp_all

lemma adds_is_done: "adds is_query (is_done E d acc)"
  unfolding is_done_def Let_def by (intro adds_intros adds_exists_nonempty)

subsection \<open>The log writer\<close>

lemma addsD: "adds P m \<Longrightarrow> m w = (r, w') \<Longrightarrow> \<exists>evs. trace w' = trace w @ evs \<and> list_all P evs"
  unfolding adds_def by (metis snd_conv)

lemma log_records_quiet: "list_all (\<lambda>e. \<not> is_append e) evs \<Longrightarrow> log_records evs = []"
proof (induction evs)
  case Nil
  show ?case by (simp add: log_records_def)
next
  case (Cons e evs)
  then show ?case by (cases e) (simp_all add: log_records_def)
qed

lemma log_records_append: "log_records (xs @ ys) = log_records xs @ log_records ys"
  by (simp add: log_records_def)

lemma new_events_ext: "trace w' = trace w @ evs \<Longrightarrow> new_events w w' = evs"
  by (simp add: new_events_def)

lemma query_quiet: "list_all is_query evs \<Longrightarrow> list_all (\<lambda>e. \<not> is_append e) evs"
proof (induction evs)
  case Nil
  show ?case by simp
next
  case (Cons e evs)
  then show ?case by (cases e) simp_all
qed

lemma io_bind_Inr:
  "io_bind m f w = (r, w') \<Longrightarrow>
   (\<exists>e. m w = (Inl e, w') \<and> r = Inl e) \<or> (\<exists>x w1. m w = (Inr x, w1) \<and> f x w1 = (r, w'))"
  by (auto simp: io_bind_def split: prod.splits sum.splits)

lemma open_append_ok:
  "open_append_write s t w = (Inr u, w') \<Longrightarrow>
   trace w' = trace w @ [Append s t] \<and> clock w' = clock w \<and>
   files w' = (files w)(resolve s \<mapsto>
     File ((case files w (resolve s) of Some (File d) \<Rightarrow> d | _ \<Rightarrow> []) @ t))"
  by (auto simp: open_append_write_def emit_def
      split: if_splits sum.splits node.splits option.splits)

lemma open_append_plain:
  assumes "open_append_write s t w = (Inr u, w')"
  shows "s \<noteq> []" and "\<not> wants_dir s" and "snd (resolve s) \<noteq> []"
    and "walk (files w) (fst (resolve s)) [] (butlast (snd (resolve s))) = Inr Dir"
    and "files w (resolve s) \<noteq> Some Dir"
  using assms
  by (auto simp: open_append_write_def wants_dir_def
      split: if_splits sum.splits node.splits option.splits)

lemma open_append_err:
  "open_append_write s t w = (Inl e, w') \<Longrightarrow> trace w' = trace w \<and> clock w' = clock w"
  by (auto simp: open_append_write_def emit_def
      split: if_splits sum.splits node.splits option.splits)

lemma append_log_ok:
  "append_log lp a st m w = (Inr u, w') \<Longrightarrow>
   trace w' = trace w @ [Append lp (log_line (strftime (clock w)) a st m)] \<and>
   clock w' = clock w \<and>
   (\<exists>fs1. mkdirs (files w) (fst (resolve lp)) [] (butlast (snd (resolve lp))) = Inr fs1 \<and>
      open_append_write lp (log_line (strftime (clock w)) a st m) (w\<lparr>files := fs1\<rparr>) = (Inr u, w') \<and>
      files w' = fs1(resolve lp \<mapsto>
        File ((case fs1 (resolve lp) of Some (File d) \<Rightarrow> d | _ \<Rightarrow> []) @
              log_line (strftime (clock w)) a st m)))"
proof -
  assume a: "append_log lp a st m w = (Inr u, w')"
  let ?line = "log_line (strftime (clock w)) a st m"
  from a obtain fs1 where
    m: "mkdirs (files w) (fst (resolve lp)) [] (butlast (snd (resolve lp))) = Inr fs1"
    and o: "open_append_write lp ?line (w\<lparr>files := fs1\<rparr>) = (Inr u, w')"
    by (auto simp: append_log_def io_bind_def datetime_now_strftime_def path_parent_mkdir_mkdirs
        split: sum.splits)
  from open_append_ok [OF o] m o show ?thesis by simp
qed

lemma append_log_err:
  "append_log lp a st m w = (Inl e, w') \<Longrightarrow> trace w' = trace w \<and> clock w' = clock w"
proof -
  assume a: "append_log lp a st m w = (Inl e, w')"
  let ?line = "log_line (strftime (clock w)) a st m"
  show ?thesis
  proof (cases "mkdirs (files w) (fst (resolve lp)) [] (butlast (snd (resolve lp)))")
    case (Inl k)
    with a show ?thesis
      by (auto simp: append_log_def io_bind_def datetime_now_strftime_def path_parent_mkdir_mkdirs)
  next
    case (Inr fs1)
    with a have o: "open_append_write lp ?line (w\<lparr>files := fs1\<rparr>) = (Inl e, w')"
      by (auto simp: append_log_def io_bind_def datetime_now_strftime_def path_parent_mkdir_mkdirs)
    from open_append_err [OF o] show ?thesis by simp
  qed
qed

subsection \<open>The steps of a pipeline\<close>

lemma exists_nonempty_run:
  "\<exists>evs. exists_nonempty E p w = (Inr (nonempty_at E (files w) p), w\<lparr>trace := trace w @ evs\<rparr>) \<and>
         list_all is_query evs"
proof (cases "stat (files w) p")
  case (Inl k)
  then show ?thesis
    by (intro exI [of _ "[Exists p]"])
      (simp add: exists_nonempty_def io_bind_def os_path_exists_def io_return_def emit_def
        nonempty_at_def)
next
  case (Inr nd)
  then show ?thesis
    by (intro exI [of _ "[Exists p, GetSize p]"])
      (cases nd; simp add: exists_nonempty_def io_bind_def os_path_exists_def io_return_def
        emit_def nonempty_at_def os_path_getsize_def)
qed

lemma is_done_run:
  "\<exists>evs. is_done E d acc w =
           (Inr (nonempty_at E (files w) (out_dir d @ [47] @ acc @ [47] @ acc @ ascii ''.fastq'') \<or>
                 nonempty_at E (files w) (out_dir d @ [47] @ acc @ [47] @ acc @ ascii ''_1.fastq'')),
            w\<lparr>trace := trace w @ evs\<rparr>) \<and>
         list_all is_query evs"
proof -
  let ?se = "out_dir d @ [47] @ acc @ [47] @ acc @ ascii ''.fastq''"
  let ?pe = "out_dir d @ [47] @ acc @ [47] @ acc @ ascii ''_1.fastq''"
  obtain evs1 where
    e1: "exists_nonempty E ?se w = (Inr (nonempty_at E (files w) ?se), w\<lparr>trace := trace w @ evs1\<rparr>)"
        "list_all is_query evs1"
    using exists_nonempty_run by blast
  obtain evs2 where
    e2: "exists_nonempty E ?pe (w\<lparr>trace := trace w @ evs1\<rparr>) =
           (Inr (nonempty_at E (files w) ?pe), w\<lparr>trace := trace w @ evs1 @ evs2\<rparr>)"
        "list_all is_query evs2"
    using exists_nonempty_run [of E ?pe "w\<lparr>trace := trace w @ evs1\<rparr>"] by auto
  show ?thesis
  proof (cases "nonempty_at E (files w) ?se")
    case True
    with e1 show ?thesis
      by (intro exI [of _ evs1]) (simp add: is_done_def io_bind_def io_return_def)
  next
    case False
    with e1 e2 show ?thesis
      by (intro exI [of _ "evs1 @ evs2"]) (simp add: is_done_def io_bind_def io_return_def)
  qed
qed

lemma log_records_single: "log_records [Append p t] = [(p, t)]"
  by (simp add: log_records_def)

lemma replace_newlines_flat: "10 \<notin> set (replace_newlines s)"
  by (auto simp: replace_newlines_def)

lemma adds_cleanup:
  "adds (\<lambda>e. \<not> is_append e)
     (io_bind (if dt then safe_rmtree p1 dry else io_return ())
        (\<lambda>_. if ds then safe_rmtree p2 dry else io_return ()))"
  by (intro adds_intros adds_safe_rmtree)

lemma cleanup_and_log_assoc:
  "cleanup_and_log acc td sd dry dt ds lp =
     io_bind (io_bind (if dt then safe_rmtree (td @ [47] @ acc) dry else io_return ())
                (\<lambda>_. if ds then safe_rmtree (sd @ [47] @ acc) dry else io_return ()))
       (\<lambda>_. io_bind (append_log lp acc (ascii ''OK'') (ascii ''prefetch + fasterq-dump completed''))
               (\<lambda>_. io_return (acc, True, ascii ''OK'')))"
  by (rule ext) (simp add: cleanup_and_log_def io_bind_def Let_def split: prod.splits sum.splits)

lemma attempt_assoc:
  "attempt E d acc td sd dry dt ds lp =
     io_bind
       (io_bind (prefetch_one E d acc) (\<lambda>_.
        io_bind (fasterq_dump_one E d acc) (\<lambda>_.
        io_bind (if dt then safe_rmtree (td @ [47] @ acc) dry else io_return ())
                (\<lambda>_. if ds then safe_rmtree (sd @ [47] @ acc) dry else io_return ()))))
       (\<lambda>_. io_bind (append_log lp acc (ascii ''OK'') (ascii ''prefetch + fasterq-dump completed''))
               (\<lambda>_. io_return (acc, True, ascii ''OK'')))"
  by (rule ext)
    (simp add: attempt_def cleanup_and_log_assoc io_bind_def split: prod.splits sum.splits)

lemma adds_downloads:
  "adds (\<lambda>e. \<not> is_append e)
     (io_bind (prefetch_one E d acc) (\<lambda>_.
      io_bind (fasterq_dump_one E d acc) (\<lambda>_.
      io_bind (if dt then safe_rmtree p1 dry else io_return ())
              (\<lambda>_. if ds then safe_rmtree p2 dry else io_return ()))))"
  by (intro adds_bind adds_prefetch adds_fasterq adds_cleanup)

lemma attempt_run:
  assumes "attempt E d acc td sd dry dt ds lp w = (r, w')"
  shows "\<exists>evs. trace w' = trace w @ evs \<and>
     (case r of
        Inl e \<Rightarrow> log_records evs = []
      | Inr out \<Rightarrow> out = (acc, True, ascii ''OK'') \<and>
          (\<exists>c. log_records evs =
             [(lp, log_line (strftime c) acc (ascii ''OK'')
                     (ascii ''prefetch + fasterq-dump completed''))]))"
proof -
  let ?pre = "io_bind (prefetch_one E d acc) (\<lambda>_.
        io_bind (fasterq_dump_one E d acc) (\<lambda>_.
        io_bind (if dt then safe_rmtree (td @ [47] @ acc) dry else io_return ())
                (\<lambda>_. if ds then safe_rmtree (sd @ [47] @ acc) dry else io_return ())))"
  let ?log = "append_log lp acc (ascii ''OK'') (ascii ''prefetch + fasterq-dump completed'')"
  from assms have a: "io_bind ?pre (\<lambda>_. io_bind ?log (\<lambda>_. io_return (acc, True, ascii ''OK''))) w = (r, w')"
    by (simp add: attempt_assoc)
  from io_bind_Inr [OF a] show ?thesis
  proof
    assume "\<exists>e. ?pre w = (Inl e, w') \<and> r = Inl e"
    then obtain e where e: "?pre w = (Inl e, w')" "r = Inl e" by blast
    from addsD [OF adds_downloads e(1)] obtain evs where
      "trace w' = trace w @ evs" "list_all (\<lambda>e. \<not> is_append e) evs" by blast
    with e(2) show ?thesis by (auto simp: log_records_quiet)
  next
    assume "\<exists>x w1. ?pre w = (Inr x, w1) \<and>
       io_bind ?log (\<lambda>_. io_return (acc, True, ascii ''OK'')) w1 = (r, w')"
    then obtain x w1 where p: "?pre w = (Inr x, w1)"
      and l: "io_bind ?log (\<lambda>_. io_return (acc, True, ascii ''OK'')) w1 = (r, w')" by blast
    from addsD [OF adds_downloads p] obtain evs where
      evs: "trace w1 = trace w @ evs" "list_all (\<lambda>e. \<not> is_append e) evs" by blast
    from io_bind_Inr [OF l] show ?thesis
    proof
      assume "\<exists>e. ?log w1 = (Inl e, w') \<and> r = Inl e"
      then obtain e where e: "?log w1 = (Inl e, w')" "r = Inl e" by blast
      from append_log_err [OF e(1)] evs e(2) show ?thesis
        by (auto simp: log_records_quiet)
    next
      assume "\<exists>u w2. ?log w1 = (Inr u, w2) \<and> io_return (acc, True, ascii ''OK'') w2 = (r, w')"
      then obtain u w2 where u: "?log w1 = (Inr u, w2)"
        and r: "io_return (acc, True, ascii ''OK'') w2 = (r, w')" by blast
      from r have rr: "r = Inr (acc, True, ascii ''OK'')" "w' = w2" by (auto simp: io_return_def)
      from append_log_ok [OF u] have
        "trace w2 = trace w1 @ [Append lp (log_line (strftime (clock w1)) acc (ascii ''OK'')
            (ascii ''prefetch + fasterq-dump completed''))]" by simp
      moreover have "log_records (evs @ [Append lp (log_line (strftime (clock w1)) acc
            (ascii ''OK'') (ascii ''prefetch + fasterq-dump completed''))]) =
          [(lp, log_line (strftime (clock w1)) acc (ascii ''OK'')
                  (ascii ''prefetch + fasterq-dump completed''))]"
        using evs(2) by (simp add: log_records_append log_records_quiet log_records_single)
      ultimately show ?thesis using evs(1) rr
        by (intro exI [of _ "evs @ [Append lp (log_line (strftime (clock w1)) acc
            (ascii ''OK'') (ascii ''prefetch + fasterq-dump completed''))]"]) auto
    qed
  qed
qed

subsection \<open>The pipeline as a whole\<close>

lemma pipeline_skip:
  assumes "nonempty_at E (files w) (od @ [47] @ acc @ [47] @ acc @ ascii ''.fastq'') \<or>
           nonempty_at E (files w) (od @ [47] @ acc @ [47] @ acc @ ascii ''_1.fastq'')"
  shows "\<exists>evs. list_all is_query evs \<and>
     process_one_accession E acc od td sd nt dry dt ds lp w =
       (case append_log lp acc (ascii ''SKIP'') (ascii ''fastq already downloaded'')
               (w\<lparr>trace := trace w @ evs\<rparr>) of
          (Inl e, w1) \<Rightarrow> (Inl e, w1)
        | (Inr u, w1) \<Rightarrow> (Inr (acc, True, ascii ''SKIP (fastq already downloaded)''), w1))"
proof -
  let ?d = "\<lparr>dry_run = dry, out_dir = od, temp_dir = td, sra_dir = sd, threads = nt\<rparr>"
  from is_done_run [of E ?d acc w] assms obtain evs where
    "is_done E ?d acc w = (Inr True, w\<lparr>trace := trace w @ evs\<rparr>)" "list_all is_query evs"
    by auto
  then show ?thesis
    by (intro exI [of _ evs])
      (simp add: process_one_accession_def Let_def io_bind_def io_return_def split: prod.splits sum.splits)
qed

lemma pipeline_try:
  assumes "\<not> nonempty_at E (files w) (od @ [47] @ acc @ [47] @ acc @ ascii ''.fastq'')"
    and "\<not> nonempty_at E (files w) (od @ [47] @ acc @ [47] @ acc @ ascii ''_1.fastq'')"
  shows "\<exists>evs. list_all is_query evs \<and>
     process_one_accession E acc od td sd nt dry dt ds lp w =
       (case attempt E \<lparr>dry_run = dry, out_dir = od, temp_dir = td, sra_dir = sd, threads = nt\<rparr>
               acc td sd dry dt ds lp (w\<lparr>trace := trace w @ evs\<rparr>) of
          (Inr out, wa) \<Rightarrow> (Inr out, wa)
        | (Inl e, wa) \<Rightarrow>
            (case append_log lp acc (ascii ''FAIL'') (replace_newlines (str_exn E e)) wa of
               (Inl e', w2) \<Rightarrow> (Inl e', w2)
             | (Inr u, w2) \<Rightarrow> (Inr (acc, False, str_exn E e), w2)))"
proof -
  let ?d = "\<lparr>dry_run = dry, out_dir = od, temp_dir = td, sra_dir = sd, threads = nt\<rparr>"
  from is_done_run [of E ?d acc w] assms obtain evs where
    "is_done E ?d acc w = (Inr False, w\<lparr>trace := trace w @ evs\<rparr>)" "list_all is_query evs"
    by auto
  then show ?thesis
    by (intro exI [of _ evs])
      (simp add: process_one_accession_def Let_def io_bind_def io_try_def io_return_def
        split: prod.splits sum.splits)
qed

lemma pipeline_run:
  assumes "process_one_accession E acc od td sd nt dry dt ds lp w = (r, w')"
  shows "\<exists>evs. trace w' = trace w @ evs \<and>
     (case r of
        Inl e \<Rightarrow> log_records evs = []
      | Inr (a, s, m) \<Rightarrow> a = acc \<and>
          (\<exists>c st lm. log_records evs = [(lp, log_line (strftime c) acc st lm)] \<and>
             10 \<notin> set lm \<and>
             (s \<and> st = ascii ''SKIP'' \<and> lm = ascii ''fastq already downloaded'' \<and>
                m = ascii ''SKIP (fastq already downloaded)'' \<or>
              s \<and> st = ascii ''OK'' \<and> lm = ascii ''prefetch + fasterq-dump completed'' \<and>
                m = ascii ''OK'' \<or>
              \<not> s \<and> st = ascii ''FAIL'' \<and> lm = replace_newlines m)))"
proof (cases "nonempty_at E (files w) (od @ [47] @ acc @ [47] @ acc @ ascii ''.fastq'') \<or>
              nonempty_at E (files w) (od @ [47] @ acc @ [47] @ acc @ ascii ''_1.fastq'')")
  case True
  let ?log = "append_log lp acc (ascii ''SKIP'') (ascii ''fastq already downloaded'')"
  from pipeline_skip [OF True, of td sd nt dry dt ds lp] obtain evs where
    q: "list_all is_query evs" and
    p: "process_one_accession E acc od td sd nt dry dt ds lp w =
       (case ?log (w\<lparr>trace := trace w @ evs\<rparr>) of
          (Inl e, w1) \<Rightarrow> (Inl e, w1)
        | (Inr u, w1) \<Rightarrow> (Inr (acc, True, ascii ''SKIP (fastq already downloaded)''), w1))"
    by blast
  have nl: "10 \<notin> set (ascii ''fastq already downloaded'')" by (simp add: ascii_def)
  obtain r1 w1 where l: "?log (w\<lparr>trace := trace w @ evs\<rparr>) = (r1, w1)" by fastforce
  show ?thesis
  proof (cases r1)
    case (Inl e)
    with l p assms have rw: "r = Inl e" "w' = w1" by auto
    from append_log_err [of lp acc _ _ "w\<lparr>trace := trace w @ evs\<rparr>" e w1] l Inl
    have "trace w1 = trace w @ evs" by auto
    with rw q show ?thesis
      by (intro exI [of _ evs]) (simp add: log_records_quiet query_quiet)
  next
    case (Inr u)
    with l p assms have rw: "r = Inr (acc, True, ascii ''SKIP (fastq already downloaded)'')"
      "w' = w1" by auto
    let ?L = "log_line (strftime (clock w)) acc (ascii ''SKIP'') (ascii ''fastq already downloaded'')"
    from append_log_ok [of lp acc _ _ "w\<lparr>trace := trace w @ evs\<rparr>" u w1] l Inr
    have t: "trace w1 = trace w @ evs @ [Append lp ?L]" by auto
    have "log_records (evs @ [Append lp ?L]) = [(lp, ?L)]"
      using q by (simp add: log_records_append log_records_quiet query_quiet log_records_single)
    with t rw nl show ?thesis
      by (intro exI [of _ "evs @ [Append lp ?L]"]) auto
  qed
next
  case False
  let ?d = "\<lparr>dry_run = dry, out_dir = od, temp_dir = td, sra_dir = sd, threads = nt\<rparr>"
  from False pipeline_try [of E w od acc td sd nt dry dt ds lp] obtain evs where
    q: "list_all is_query evs" and
    p: "process_one_accession E acc od td sd nt dry dt ds lp w =
       (case attempt E ?d acc td sd dry dt ds lp (w\<lparr>trace := trace w @ evs\<rparr>) of
          (Inr out, wa) \<Rightarrow> (Inr out, wa)
        | (Inl e, wa) \<Rightarrow>
            (case append_log lp acc (ascii ''FAIL'') (replace_newlines (str_exn E e)) wa of
               (Inl e', w2) \<Rightarrow> (Inl e', w2)
             | (Inr u, w2) \<Rightarrow> (Inr (acc, False, str_exn E e), w2)))"
    by blast
  obtain ra wa where a: "attempt E ?d acc td sd dry dt ds lp (w\<lparr>trace := trace w @ evs\<rparr>) = (ra, wa)"
    by fastforce
  from attempt_run [OF a] obtain evs2 where
    t2: "trace wa = trace w @ evs @ evs2" and
    c2: "case ra of
        Inl e \<Rightarrow> log_records evs2 = []
      | Inr out \<Rightarrow> out = (acc, True, ascii ''OK'') \<and>
          (\<exists>c. log_records evs2 =
             [(lp, log_line (strftime c) acc (ascii ''OK'')
                     (ascii ''prefetch + fasterq-dump completed''))])"
    by auto
  have q0: "log_records evs = []" using q by (simp add: log_records_quiet query_quiet)
  have nl: "10 \<notin> set (ascii ''prefetch + fasterq-dump completed'')" by (simp add: ascii_def)
  show ?thesis
  proof (cases ra)
    case (Inr out)
    with a p assms have rw: "r = Inr out" "w' = wa" by auto
    from c2 Inr obtain c where "out = (acc, True, ascii ''OK'')"
      "log_records evs2 = [(lp, log_line (strftime c) acc (ascii ''OK'')
                     (ascii ''prefetch + fasterq-dump completed''))]" by auto
    with rw t2 q0 nl show ?thesis
      by (intro exI [of _ "evs @ evs2"]) (auto simp: log_records_append)
  next
    case (Inl e)
    let ?log = "append_log lp acc (ascii ''FAIL'') (replace_newlines (str_exn E e))"
    from c2 Inl have r2: "log_records evs2 = []" by simp
    obtain r3 w3 where l: "?log wa = (r3, w3)" by fastforce
    show ?thesis
    proof (cases r3)
      case (Inl e')
      with l p a \<open>ra = Inl e\<close> assms have rw: "r = Inl e'" "w' = w3" by auto
      from append_log_err [of lp acc _ _ wa e' w3] l Inl
      have "trace w3 = trace wa" by auto
      with rw t2 q0 r2 show ?thesis
        by (intro exI [of _ "evs @ evs2"]) (simp add: log_records_append)
    next
      case (Inr u)
      with l p a \<open>ra = Inl e\<close> assms have rw: "r = Inr (acc, False, str_exn E e)" "w' = w3" by auto
      let ?L = "log_line (strftime (clock wa)) acc (ascii ''FAIL'') (replace_newlines (str_exn E e))"
      from append_log_ok [of lp acc _ _ wa u w3] l Inr
      have t: "trace w3 = trace wa @ [Append lp ?L]" by auto
      have "log_records (evs @ evs2 @ [Append lp ?L]) = [(lp, ?L)]"
        using q0 r2 by (simp add: log_records_append log_records_single)
      with t t2 rw show ?thesis
        by (intro exI [of _ "evs @ evs2 @ [Append lp ?L]"])
          (auto simp: replace_newlines_flat)
    qed
  qed
qed

subsection \<open>Exceptions at the boundary of the pipeline\<close>

lemmas run_defs =
  process_one_accession_def is_done_def exists_nonempty_def attempt_def cleanup_and_log_def
  prefetch_one_def fasterq_dump_one_def run_command_def subprocess_run_def safe_rmtree_def
  shutil_rmtree_def append_log_def path_parent_mkdir_mkdirs open_append_write_def
  datetime_now_strftime_def os_path_exists_def os_path_getsize_def os_makedirs_def
  makedirs.simps mkdir_exist_ok_def os_mkdir_def dir_split_def posix_split_def stat_def
  wants_dir_def dot_last_def names_def path_str_def path_root_def
  resolve_def io_bind_def io_try_def io_return_def io_raise_def print_line_def emit_def
  tool_def world_of_def ascii_def Let_def create_dir_def remove_tree_def below_def
  encodable_def surrogate_def log_line_def

lemma strftime_noon: "strftime noon = ascii ''2024-01-02 12:00:00''"
  by (simp add: strftime_def noon_def zpad_def ascii_def str_nat.simps)

text \<open>
  Four example calls that fail. A regular file \<open>f\<close> is above the directory to be made:
  \<open>os.makedirs\<close> names the first directory it could not make, \<open>Path.mkdir\<close> the parent
  of the log path. A log path that ends with \<open>/\<close> cannot be opened for writing. A record
  with a surrogate cannot be encoded, and the text of the error gives its place in the line.
\<close>

lemma makedirs_blocked_above:
  "os_makedirs (ascii ''f/o/SRR1'') (world_of [(False, [ascii ''f'']) \<mapsto> File (ascii ''x'')]) =
     (Inl (OSError ENOTDIR (ascii ''f/o'')),
      world_of [(False, [ascii ''f'']) \<mapsto> File (ascii ''x'')])"
  by (simp add: run_defs)

lemma log_parent_is_file:
  "fst (append_log (ascii ''f/l'') (ascii ''SRR1'') (ascii ''OK'') (ascii ''done'')
          (world_of [(False, [ascii ''f'']) \<mapsto> File (ascii ''x'')])) =
     Inl (OSError EEXIST (ascii ''f''))"
  by (simp add: run_defs)

lemma log_path_with_slash:
  "fst (append_log (ascii ''l/'') (ascii ''SRR1'') (ascii ''OK'') (ascii ''done'')
          (world_of Map.empty)) =
     Inl (OSError EISDIR (ascii ''l/''))"
  by (simp add: run_defs)

lemma log_record_with_surrogate:
  "fst (append_log (ascii ''l'') (ascii ''SRR'' @ [56448]) (ascii ''SKIP'') (ascii ''x'')
          (world_of Map.empty)) =
     Inl (ValueError ([39] @ ascii ''utf-8'' @ [39] @ ascii '' codec can'' @ [39] @
            ascii ''t encode character '' @ [39, 92, 117] @ ascii ''dc80'' @ [39] @
            ascii '' in position 23: surrogates not allowed''))"
  by (simp add: run_defs strftime_noon encode_error_def hex_digit_def str_nat.simps)





subsection \<open>The idempotency check\<close>

text \<open>
  Two example runs on an accession whose paired-end output is there: one with the log path
  a directory, one with a log that can be written.
\<close>

lemma done_log_directory_run:
  "fst (process_one_accession (tool 0 []) (ascii ''SRR1'') (ascii ''o'') (ascii ''t'') (ascii ''s'')
          2 False True True (ascii ''l'')
          (world_of (fs_done((False, [ascii ''l'']) \<mapsto> Dir))))
   = Inl (OSError EISDIR (ascii ''l''))"
  by (simp add: run_defs fs_done_def)

lemma done_run:
  "process_one_accession (tool 0 []) (ascii ''SRR1'') (ascii ''o'') (ascii ''t'') (ascii ''s'')
          2 False True True (ascii ''l'') (world_of fs_done)
   = (Inr (ascii ''SRR1'', True, ascii ''SKIP (fastq already downloaded)''),
      \<lparr>files = fs_done((False, [ascii ''l'']) \<mapsto>
                 File (ascii ''2024-01-02 12:00:00'' @ [9] @ ascii ''SRR1'' @ [9] @ ascii ''SKIP'' @ [9] @
                       ascii ''fastq already downloaded'' @ [10])),
       clock = noon,
       trace = [Exists (ascii ''o/SRR1/SRR1.fastq''), Exists (ascii ''o/SRR1/SRR1_1.fastq''),
                GetSize (ascii ''o/SRR1/SRR1_1.fastq''),
                Append (ascii ''l'')
                  (ascii ''2024-01-02 12:00:00'' @ [9] @ ascii ''SRR1'' @ [9] @ ascii ''SKIP'' @ [9] @
                       ascii ''fastq already downloaded'' @ [10])]\<rparr>)"
  by (simp add: run_defs fs_done_def strftime_noon)

lemma stat_done:
  "stat fs_done (ascii ''o'' @ [47] @ ascii ''SRR1'' @ [47] @ ascii ''SRR1'' @ ascii ''_1.fastq'')
     = Inr (File (ascii ''@r''))"
  by (simp add: stat_def wants_dir_def dot_last_def names_def resolve_def fs_done_def ascii_def)

text \<open>
  Claim C2, as stated, fails: a non-empty \<open>SRR1_1.fastq\<close> exists, and the pipeline does
  not return the SKIPPED tuple, because the write of the SKIP record raises.
\<close>

theorem skipped_outcome_needs_log:
  "stat (files (world_of (fs_done((False, [ascii ''l'']) \<mapsto> Dir))))
     (ascii ''o'' @ [47] @ ascii ''SRR1'' @ [47] @ ascii ''SRR1'' @ ascii ''_1.fastq'')
     = Inr (File (ascii ''@r'')) \<and>
   fst (process_one_accession (tool 0 []) (ascii ''SRR1'') (ascii ''o'') (ascii ''t'') (ascii ''s'')
          2 False True True (ascii ''l'')
          (world_of (fs_done((False, [ascii ''l'']) \<mapsto> Dir))))
     \<noteq> Inr (ascii ''SRR1'', True, ascii ''SKIP (fastq already downloaded)'')"
  by (simp add: done_log_directory_run)
    (simp add: stat_def wants_dir_def dot_last_def names_def resolve_def fs_done_def ascii_def
       world_of_def)

text \<open>
  Claim C2, amended. When both output paths are missing (whatever is missing on the way,
  the output directory included) or are empty files, \<open>is_done\<close> answers no and does not
  raise. When one of them is a non-empty file, the pipeline only queries the file system and
  writes the SKIP record: it prints no command and runs none; it returns the SKIPPED tuple
  when that write succeeds and raises what the write raised otherwise.
\<close>

theorem skip_when_output_present:
  "((\<forall>p \<in> {od @ [47] @ acc @ [47] @ acc @ ascii ''.fastq'',
             od @ [47] @ acc @ [47] @ acc @ ascii ''_1.fastq''}.
       (\<exists>k. stat (files w) p = Inl k) \<or> stat (files w) p = Inr (File [])) \<longrightarrow>
     fst (is_done E \<lparr>dry_run = dry, out_dir = od, temp_dir = td, sra_dir = sd, threads = nt\<rparr>
            acc w) = Inr False) \<and>
   ((\<exists>p \<in> {od @ [47] @ acc @ [47] @ acc @ ascii ''.fastq'',
             od @ [47] @ acc @ [47] @ acc @ ascii ''_1.fastq''}.
       \<exists>d. stat (files w) p = Inr (File d) \<and> d \<noteq> []) \<longrightarrow>
    process_one_accession E acc od td sd nt dry dt ds lp w = (r, w') \<longrightarrow>
    (\<exists>evs. list_all is_query evs \<and>
       (case r of
          Inr out \<Rightarrow> out = (acc, True, ascii ''SKIP (fastq already downloaded)'') \<and>
            new_events w w' =
              evs @ [Append lp (log_line (strftime (clock w)) acc (ascii ''SKIP'')
                                  (ascii ''fastq already downloaded''))]
        | Inl e \<Rightarrow> new_events w w' = evs \<and>
            append_log lp acc (ascii ''SKIP'') (ascii ''fastq already downloaded'')
              (w\<lparr>trace := trace w @ evs\<rparr>) = (Inl e, w'))))"
proof (intro conjI impI)
  let ?se = "od @ [47] @ acc @ [47] @ acc @ ascii ''.fastq''"
  let ?pe = "od @ [47] @ acc @ [47] @ acc @ ascii ''_1.fastq''"
  let ?d = "\<lparr>dry_run = dry, out_dir = od, temp_dir = td, sra_dir = sd, threads = nt\<rparr>"
  assume "\<forall>p \<in> {?se, ?pe}. (\<exists>k. stat (files w) p = Inl k) \<or> stat (files w) p = Inr (File [])"
  then have "\<not> nonempty_at E (files w) ?se" "\<not> nonempty_at E (files w) ?pe"
    by (auto simp: nonempty_at_def)
  with is_done_run [of E ?d acc w] show "fst (is_done E ?d acc w) = Inr False" by auto
next
  let ?se = "od @ [47] @ acc @ [47] @ acc @ ascii ''.fastq''"
  let ?pe = "od @ [47] @ acc @ [47] @ acc @ ascii ''_1.fastq''"
  let ?log = "append_log lp acc (ascii ''SKIP'') (ascii ''fastq already downloaded'')"
  assume "\<exists>p \<in> {?se, ?pe}. \<exists>d. stat (files w) p = Inr (File d) \<and> d \<noteq> []"
    and run: "process_one_accession E acc od td sd nt dry dt ds lp w = (r, w')"
  then have "nonempty_at E (files w) ?se \<or> nonempty_at E (files w) ?pe"
    by (auto simp: nonempty_at_def)
  from pipeline_skip [OF this, of td sd nt dry dt ds lp] obtain evs where
    q: "list_all is_query evs" and
    p: "process_one_accession E acc od td sd nt dry dt ds lp w =
       (case ?log (w\<lparr>trace := trace w @ evs\<rparr>) of
          (Inl e, w1) \<Rightarrow> (Inl e, w1)
        | (Inr u, w1) \<Rightarrow> (Inr (acc, True, ascii ''SKIP (fastq already downloaded)''), w1))"
    by blast
  obtain r1 w1 where l: "?log (w\<lparr>trace := trace w @ evs\<rparr>) = (r1, w1)" by fastforce
  have "case r of
          Inr out \<Rightarrow> out = (acc, True, ascii ''SKIP (fastq already downloaded)'') \<and>
            new_events w w' =
              evs @ [Append lp (log_line (strftime (clock w)) acc (ascii ''SKIP'')
                                  (ascii ''fastq already downloaded''))]
        | Inl e \<Rightarrow> new_events w w' = evs \<and> ?log (w\<lparr>trace := trace w @ evs\<rparr>) = (Inl e, w')"
  proof (cases r1)
    case (Inl e)
    with l p run have rw: "r = Inl e" "w' = w1" by simp_all
    from append_log_err [of lp acc _ _ "w\<lparr>trace := trace w @ evs\<rparr>" e w1] l Inl
    have "trace w1 = trace w @ evs" by simp
    with rw l Inl show ?thesis by (simp add: new_events_def)
  next
    case (Inr u)
    with l p run have rw: "r = Inr (acc, True, ascii ''SKIP (fastq already downloaded)'')"
      "w' = w1" by simp_all
    from append_log_ok [of lp acc _ _ "w\<lparr>trace := trace w @ evs\<rparr>" u w1] l Inr
    have "trace w1 = trace w @ evs @ [Append lp (log_line (strftime (clock w)) acc (ascii ''SKIP'')
                                  (ascii ''fastq already downloaded''))]" by simp
    with rw show ?thesis by (simp add: new_events_def)
  qed
  with q show "\<exists>evs. list_all is_query evs \<and>
       (case r of
          Inr out \<Rightarrow> out = (acc, True, ascii ''SKIP (fastq already downloaded)'') \<and>
            new_events w w' =
              evs @ [Append lp (log_line (strftime (clock w)) acc (ascii ''SKIP'')
                                  (ascii ''fastq already downloaded''))]
        | Inl e \<Rightarrow> new_events w w' = evs \<and> ?log (w\<lparr>trace := trace w @ evs\<rparr>) = (Inl e, w'))"
    by blast
qed

theorem skip_when_output_present_witness:
  "fst (is_done (tool 0 []) \<lparr>dry_run = False, out_dir = ascii ''o'', temp_dir = ascii ''t'',
                              sra_dir = ascii ''s'', threads = 2\<rparr>
          (ascii ''SRR1'') (world_of Map.empty)) = Inr False \<and>
   (\<exists>evs. list_all is_query evs \<and>
      new_events (world_of fs_done)
        (snd (process_one_accession (tool 0 []) (ascii ''SRR1'') (ascii ''o'') (ascii ''t'')
                (ascii ''s'') 2 False True True (ascii ''l'') (world_of fs_done))) =
        evs @ [Append (ascii ''l'')
                 (log_line (strftime noon) (ascii ''SRR1'') (ascii ''SKIP'')
                    (ascii ''fastq already downloaded''))])"
proof
  have "stat Map.empty (ascii ''o'' @ [47] @ ascii ''SRR1'' @ [47] @ ascii ''SRR1'' @ ascii ''.fastq'')
          = Inl ENOENT"
       "stat Map.empty (ascii ''o'' @ [47] @ ascii ''SRR1'' @ [47] @ ascii ''SRR1'' @ ascii ''_1.fastq'')
          = Inl ENOENT"
    by (simp_all add: stat_def resolve_def ascii_def)
  then show "fst (is_done (tool 0 []) \<lparr>dry_run = False, out_dir = ascii ''o'',
                 temp_dir = ascii ''t'', sra_dir = ascii ''s'', threads = 2\<rparr>
          (ascii ''SRR1'') (world_of Map.empty)) = Inr False"
    using skip_when_output_present
      [where w = "world_of Map.empty" and od = "ascii ''o''" and acc = "ascii ''SRR1''"
         and E = "tool 0 []" and dry = False and td = "ascii ''t''" and sd = "ascii ''s''"
         and nt = 2]
    by (simp add: world_of_def)
next
  let ?w = "world_of fs_done"
  let ?r = "Inr (ascii ''SRR1'', True, ascii ''SKIP (fastq already downloaded)'') :: exn + outcome"
  let ?p = "process_one_accession (tool 0 []) (ascii ''SRR1'') (ascii ''o'') (ascii ''t'')
              (ascii ''s'') 2 False True True (ascii ''l'')"
  have run: "?p ?w = (?r, snd (?p ?w))" by (simp add: done_run)
  have st: "\<exists>p \<in> {ascii ''o'' @ [47] @ ascii ''SRR1'' @ [47] @ ascii ''SRR1'' @ ascii ''.fastq'',
                   ascii ''o'' @ [47] @ ascii ''SRR1'' @ [47] @ ascii ''SRR1'' @ ascii ''_1.fastq''}.
            \<exists>d. stat (files ?w) p = Inr (File d) \<and> d \<noteq> []"
    using stat_done by (simp add: world_of_def ascii_def)
  have "\<exists>evs. list_all is_query evs \<and>
       (case ?r of
          Inr out \<Rightarrow> out = (ascii ''SRR1'', True, ascii ''SKIP (fastq already downloaded)'') \<and>
            new_events ?w (snd (?p ?w)) =
              evs @ [Append (ascii ''l'') (log_line (strftime (clock ?w)) (ascii ''SRR1'')
                       (ascii ''SKIP'') (ascii ''fastq already downloaded''))]
        | Inl e \<Rightarrow> new_events ?w (snd (?p ?w)) = evs \<and>
            append_log (ascii ''l'') (ascii ''SRR1'') (ascii ''SKIP'')
              (ascii ''fastq already downloaded'')
              (?w\<lparr>trace := trace ?w @ evs\<rparr>) = (Inl e, snd (?p ?w)))"
    using skip_when_output_present
      [where w = ?w and od = "ascii ''o''" and acc = "ascii ''SRR1''"
         and E = "tool 0 []" and dry = False and td = "ascii ''t''" and sd = "ascii ''s''"
         and nt = 2 and dt = True and ds = True and lp = "ascii ''l''" and r = ?r
         and w' = "snd (?p ?w)"] st run
    by blast
  then show "\<exists>evs. list_all is_query evs \<and>
      new_events ?w (snd (?p ?w)) =
        evs @ [Append (ascii ''l'')
                 (log_line (strftime noon) (ascii ''SRR1'') (ascii ''SKIP'')
                    (ascii ''fastq already downloaded''))]"
    by (simp add: world_of_def)
qed

subsection \<open>The records of the log\<close>

lemma str_nat_digits: "set (str_nat n) \<subseteq> {48..57}"
proof (induction n rule: str_nat.induct)
  case (1 n)
  show ?case
  proof (cases "n < 10")
    case True
    then show ?thesis by (subst str_nat.simps) auto
  next
    case False
    have "n mod 10 < 10" by simp
    then have "48 + n mod 10 \<in> {48..57}" by auto
    with False 1 show ?thesis by (subst str_nat.simps) auto
  qed
qed

lemma zpad_digits: "set (zpad k (str_nat n)) \<subseteq> {48..57}"
  using str_nat_digits [of n] by (auto simp: zpad_def)

lemma strftime_chars: "set (strftime d) \<subseteq> {48..57} \<union> {45, 32, 58}"
  unfolding strftime_def using zpad_digits by (auto simp del: atLeastAtMost_iff)

lemma strftime_no_newline: "10 \<notin> set (strftime d)"
  using strftime_chars [of d] by auto

lemma append_log_content:
  assumes "append_log lp a st m w = (Inr u, w')"
  shows "stat (files w') lp =
           Inr (File ((case stat (files w) lp of Inr (File d) \<Rightarrow> d | _ \<Rightarrow> []) @
                      log_line (strftime (clock w)) a st m))"
proof -
  let ?line = "log_line (strftime (clock w)) a st m"
  let ?a = "fst (resolve lp)" and ?ns = "snd (resolve lp)"
  from append_log_ok [OF assms] obtain fs1 where
    m: "mkdirs (files w) ?a [] (butlast ?ns) = Inr fs1"
    and o: "open_append_write lp ?line (w\<lparr>files := fs1\<rparr>) = (Inr u, w')"
    and f': "files w' = fs1(resolve lp \<mapsto>
           File ((case fs1 (resolve lp) of Some (File d) \<Rightarrow> d | _ \<Rightarrow> []) @ ?line))"
    by blast
  note pl = open_append_plain [OF o]
  from pl have ne: "lp \<noteq> []" "?ns \<noteq> []" and nw: "\<not> wants_dir lp" by simp_all
  then have ns: "?ns = butlast ?ns @ [last ?ns]" by simp
  have key: "(?a, butlast ?ns @ [last ?ns]) = resolve lp" using ns by simp
  from pl(4) have pw: "walk fs1 ?a [] (butlast ?ns) = Inr Dir" by simp
  from pl(5) have nd: "fs1 (resolve lp) \<noteq> Some Dir" by simp
  have st: "stat fs lp = (case walk fs ?a [] ?ns of Inr (File d) \<Rightarrow> Inr (File d) | r \<Rightarrow> r)" for fs
    using ne nw by (simp add: stat_def cong: sum.case_cong node.case_cong)
  have old: "(case fs1 (resolve lp) of Some (File d) \<Rightarrow> d | _ \<Rightarrow> []) =
             (case stat (files w) lp of Inr (File d) \<Rightarrow> d | _ \<Rightarrow> [])"
  proof (cases "walk (files w) ?a [] (butlast ?ns) = Inr Dir")
    case True
    from mkdirs_id [OF True] m have "fs1 = files w" by simp
    moreover have "walk (files w) ?a [] ?ns =
        (case files w (resolve lp) of None \<Rightarrow> Inl ENOENT | Some nd \<Rightarrow> Inr nd)"
      using True walk_snoc [of "files w" ?a "[]" "butlast ?ns" "last ?ns"] ns key
      by simp
    ultimately show ?thesis using nd
      by (auto simp: st split: option.splits node.splits)
  next
    case False
    have "below (?a, [] @ butlast ?ns) (resolve lp)"
      using ns by (auto simp: below_def strict_prefix_def prefix_def intro: prod_eqI)
    from mkdirs_fresh [OF m False this] have n: "fs1 (resolve lp) = None" .
    have "walk (files w) ?a [] ?ns \<noteq> Inr (File d)" for d
      using False walk_snoc [of "files w" ?a "[]" "butlast ?ns" "last ?ns"] ns
      by (auto split: sum.splits node.splits)
    then have "stat (files w) lp \<noteq> Inr (File d)" for d
      by (auto simp: st split: sum.splits node.splits)
    then show ?thesis using n by (auto split: sum.splits node.splits)
  qed
  have "walk (files w') ?a [] (butlast ?ns) = walk fs1 ?a [] (butlast ?ns)"
  proof (rule walk_cong)
    fix p :: "ustring list"
    assume "p \<noteq> []" "prefix p (butlast ?ns)"
    then have "(?a, [] @ p) \<noteq> resolve lp"
      using ns by (metis append_Nil prefix_def append.assoc append_self_conv snd_conv not_Cons_self2
          append_butlast_last_id prefix_order.antisym prefix_snoc prefix_order.order_refl)
    then show "files w' (?a, [] @ p) = fs1 (?a, [] @ p)" using f' by simp
  qed
  with pw have "walk (files w') ?a [] (butlast ?ns) = Inr Dir" by simp
  then have "walk (files w') ?a [] ?ns =
      Inr (File ((case fs1 (resolve lp) of Some (File d) \<Rightarrow> d | _ \<Rightarrow> []) @ ?line))"
    using walk_snoc [of "files w'" ?a "[]" "butlast ?ns" "last ?ns"] ns key f'
    by simp
  then have "stat (files w') lp =
      Inr (File ((case fs1 (resolve lp) of Some (File d) \<Rightarrow> d | _ \<Rightarrow> []) @ ?line))"
    by (simp add: st)
  with old show ?thesis by simp
qed

lemma count_log_line:
  "10 \<notin> set acc \<Longrightarrow> 10 \<notin> set st \<Longrightarrow> 10 \<notin> set msg \<Longrightarrow>
   count_list (log_line (strftime c) acc st msg) 10 = 1"
  using strftime_no_newline [of c] by (simp add: log_line_def count_list_0_iff)

text \<open>An example call whose message is \<open>a\<close>, a newline, \<open>b\<close>.\<close>

lemma two_line_message_run:
  "append_log (ascii ''l'') (ascii ''SRR1'') (ascii ''FAIL'') [97, 10, 98] (world_of Map.empty) =
     (Inr (),
      \<lparr>files = [(False, [ascii ''l'']) \<mapsto>
                  File (ascii ''2024-01-02 12:00:00'' @ [9] @ ascii ''SRR1'' @ [9] @
                        ascii ''FAIL'' @ [9] @ [97, 10, 98] @ [10])],
       clock = noon,
       trace = [Append (ascii ''l'')
                  (ascii ''2024-01-02 12:00:00'' @ [9] @ ascii ''SRR1'' @ [9] @
                   ascii ''FAIL'' @ [9] @ [97, 10, 98] @ [10])]\<rparr>)"
  by (simp add: run_defs strftime_noon)

text \<open>
  Claim C8, as stated, fails: \<open>append_log\<close> writes the message as it is given. In the
  example the text appended to the log holds two newlines, so it is two lines, and the
  message is not the flattened one.
\<close>

theorem append_log_keeps_newlines:
  "files (snd (append_log (ascii ''l'') (ascii ''SRR1'') (ascii ''FAIL'') [97, 10, 98]
                 (world_of Map.empty))) (False, [ascii ''l'']) =
     Some (File (ascii ''2024-01-02 12:00:00'' @ [9] @ ascii ''SRR1'' @ [9] @
                 ascii ''FAIL'' @ [9] @ [97, 10, 98] @ [10])) \<and>
   count_list (ascii ''2024-01-02 12:00:00'' @ [9] @ ascii ''SRR1'' @ [9] @
               ascii ''FAIL'' @ [9] @ [97, 10, 98] @ [10]) 10 = 2 \<and>
   replace_newlines [97, 10, 98] \<noteq> [97, 10, 98]"
  by (simp add: two_line_message_run) (simp add: ascii_def replace_newlines_def)

text \<open>
  Claim C8, amended. A call of \<open>append_log\<close> that returns has appended to the log file
  exactly the text timestamp, tab, accession, tab, status, tab, message, newline, with the
  message as given: the file then holds what it held before (nothing if it was missing)
  followed by that text. This text is one line when accession, status and message hold no
  newline; the timestamp never does. The flattening is done by the caller: every record
  that \<open>process_one_accession\<close> writes has status SKIP, OK or FAIL and a message without
  newlines.
\<close>

theorem append_log_record:
  "(append_log lp acc st msg w = (Inr u, w') \<longrightarrow>
      new_events w w' = [Append lp (log_line (strftime (clock w)) acc st msg)] \<and>
      stat (files w') lp =
        Inr (File ((case stat (files w) lp of Inr (File d) \<Rightarrow> d | _ \<Rightarrow> []) @
                   log_line (strftime (clock w)) acc st msg))) \<and>
   (10 \<notin> set acc \<and> 10 \<notin> set st \<and> 10 \<notin> set msg \<longrightarrow>
      count_list (log_line (strftime c) acc st msg) 10 = 1) \<and>
   (process_one_accession E acc od td sd nt dry dt ds lp w = (Inr out, w'') \<longrightarrow>
      (\<exists>c' st' lm. log_records (new_events w w'') = [(lp, log_line (strftime c') acc st' lm)] \<and>
         10 \<notin> set lm \<and> st' \<in> {ascii ''SKIP'', ascii ''OK'', ascii ''FAIL''}))"
proof (intro conjI impI)
  assume a: "append_log lp acc st msg w = (Inr u, w')"
  from append_log_ok [OF a]
  show "new_events w w' = [Append lp (log_line (strftime (clock w)) acc st msg)]"
    by (simp add: new_events_def)
  from append_log_content [OF a]
  show "stat (files w') lp =
        Inr (File ((case stat (files w) lp of Inr (File d) \<Rightarrow> d | _ \<Rightarrow> []) @
                   log_line (strftime (clock w)) acc st msg))" .
next
  assume "10 \<notin> set acc \<and> 10 \<notin> set st \<and> 10 \<notin> set msg"
  then show "count_list (log_line (strftime c) acc st msg) 10 = 1"
    by (simp add: count_log_line)
next
  assume p: "process_one_accession E acc od td sd nt dry dt ds lp w = (Inr out, w'')"
  obtain a s m where out: "out = (a, s, m)" by (cases out)
  from pipeline_run [OF p] obtain evs where
    t: "trace w'' = trace w @ evs" and
    c: "\<exists>c st lm. log_records evs = [(lp, log_line (strftime c) acc st lm)] \<and>
             10 \<notin> set lm \<and>
             (s \<and> st = ascii ''SKIP'' \<and> lm = ascii ''fastq already downloaded'' \<and>
                m = ascii ''SKIP (fastq already downloaded)'' \<or>
              s \<and> st = ascii ''OK'' \<and> lm = ascii ''prefetch + fasterq-dump completed'' \<and>
                m = ascii ''OK'' \<or>
              \<not> s \<and> st = ascii ''FAIL'' \<and> lm = replace_newlines m)"
    unfolding out by auto
  from t have "new_events w w'' = evs" by (simp add: new_events_def)
  with c show "\<exists>c' st' lm. log_records (new_events w w'') = [(lp, log_line (strftime c') acc st' lm)] \<and>
         10 \<notin> set lm \<and> st' \<in> {ascii ''SKIP'', ascii ''OK'', ascii ''FAIL''}"
    by auto
qed

theorem append_log_record_witness:
  "stat (files (snd (append_log (ascii ''l'') (ascii ''SRR1'') (ascii ''FAIL'') [97, 10, 98]
                       (world_of Map.empty)))) (ascii ''l'') =
     Inr (File (log_line (strftime noon) (ascii ''SRR1'') (ascii ''FAIL'') [97, 10, 98])) \<and>
   count_list (log_line (strftime noon) (ascii ''SRR1'') (ascii ''OK'') (ascii ''done'')) 10 = 1 \<and>
   (\<exists>c' st' lm.
      log_records (new_events (world_of fs_done)
        (snd (process_one_accession (tool 0 []) (ascii ''SRR1'') (ascii ''o'') (ascii ''t'')
                (ascii ''s'') 2 False True True (ascii ''l'') (world_of fs_done)))) =
        [(ascii ''l'', log_line (strftime c') (ascii ''SRR1'') st' lm)] \<and> 10 \<notin> set lm)"
proof (intro conjI)
  let ?w = "world_of Map.empty"
  let ?a = "append_log (ascii ''l'') (ascii ''SRR1'') (ascii ''FAIL'') [97, 10, 98]"
  have r: "?a ?w = (Inr (), snd (?a ?w))" by (simp add: two_line_message_run)
  have s0: "stat (files ?w) (ascii ''l'') = Inl ENOENT"
    by (simp add: stat_def resolve_def world_of_def ascii_def)
  from append_log_record [where lp = "ascii ''l''" and acc = "ascii ''SRR1''"
      and st = "ascii ''FAIL''" and msg = "[97, 10, 98]" and w = ?w and u = "()"
      and w' = "snd (?a ?w)"] r
  have "stat (files (snd (?a ?w))) (ascii ''l'') =
        Inr (File ((case stat (files ?w) (ascii ''l'') of Inr (File d) \<Rightarrow> d | _ \<Rightarrow> []) @
                   log_line (strftime (clock ?w)) (ascii ''SRR1'') (ascii ''FAIL'') [97, 10, 98]))"
    by blast
  then show "stat (files (snd (?a ?w))) (ascii ''l'') =
     Inr (File (log_line (strftime noon) (ascii ''SRR1'') (ascii ''FAIL'') [97, 10, 98]))"
    unfolding s0 by (simp add: world_of_def)
next
  have "10 \<notin> set (ascii ''SRR1'') \<and> 10 \<notin> set (ascii ''OK'') \<and> 10 \<notin> set (ascii ''done'')"
    by (simp add: ascii_def)
  with append_log_record [where acc = "ascii ''SRR1''" and st = "ascii ''OK''"
      and msg = "ascii ''done''" and c = noon]
  show "count_list (log_line (strftime noon) (ascii ''SRR1'') (ascii ''OK'') (ascii ''done'')) 10 = 1"
    by blast
next
  let ?w = "world_of fs_done"
  let ?p = "process_one_accession (tool 0 []) (ascii ''SRR1'') (ascii ''o'') (ascii ''t'')
              (ascii ''s'') 2 False True True (ascii ''l'')"
  have run: "?p ?w = (Inr (ascii ''SRR1'', True, ascii ''SKIP (fastq already downloaded)''),
                      snd (?p ?w))" by (simp add: done_run)
  from append_log_record [where E = "tool 0 []" and acc = "ascii ''SRR1''" and od = "ascii ''o''"
      and td = "ascii ''t''" and sd = "ascii ''s''" and nt = 2 and dry = False and dt = True
      and ds = True and lp = "ascii ''l''" and w = ?w
      and out = "(ascii ''SRR1'', True, ascii ''SKIP (fastq already downloaded)'')"
      and w'' = "snd (?p ?w)"] run
  show "\<exists>c' st' lm.
      log_records (new_events ?w (snd (?p ?w))) =
        [(ascii ''l'', log_line (strftime c') (ascii ''SRR1'') st' lm)] \<and> 10 \<notin> set lm"
    by blast
qed

subsection \<open>Accounting in the scheduler\<close>

lemma pipeline_outcome:
  assumes "process_one_accession E acc od td sd nt dry dt ds lp w = (r, w')"
  shows "\<exists>evs. trace w' = trace w @ evs \<and>
     (case r of
        Inl e \<Rightarrow> log_records evs = []
      | Inr (a, s, m) \<Rightarrow> a = acc \<and>
          (\<exists>c st lm. log_records evs = [(lp, log_line (strftime c) acc st lm)]) \<and>
          (s \<longrightarrow> m = ascii ''SKIP (fastq already downloaded)'' \<or> m = ascii ''OK''))"
proof -
  from pipeline_run [OF assms] obtain evs where
    t: "trace w' = trace w @ evs" and
    c: "case r of
        Inl e \<Rightarrow> log_records evs = []
      | Inr (a, s, m) \<Rightarrow> a = acc \<and>
          (\<exists>c st lm. log_records evs = [(lp, log_line (strftime c) acc st lm)] \<and>
             10 \<notin> set lm \<and>
             (s \<and> st = ascii ''SKIP'' \<and> lm = ascii ''fastq already downloaded'' \<and>
                m = ascii ''SKIP (fastq already downloaded)'' \<or>
              s \<and> st = ascii ''OK'' \<and> lm = ascii ''prefetch + fasterq-dump completed'' \<and>
                m = ascii ''OK'' \<or>
              \<not> s \<and> st = ascii ''FAIL'' \<and> lm = replace_newlines m))" by blast
  show ?thesis
  proof (cases r)
    case (Inl e)
    with t c show ?thesis by (intro exI [of _ evs]) simp
  next
    case (Inr out)
    obtain a s m where out: "out = (a, s, m)" by (cases out)
    from c have "a = acc \<and>
          (\<exists>c st lm. log_records evs = [(lp, log_line (strftime c) acc st lm)]) \<and>
          (s \<longrightarrow> m = ascii ''SKIP (fastq already downloaded)'' \<or> m = ascii ''OK'')"
      unfolding Inr out by auto
    with t show ?thesis unfolding Inr out by (intro exI [of _ evs]) simp
  qed
qed

lemma run_futures_length: "run_futures E C accs w = (futs, w') \<Longrightarrow> length futs = length accs"
  by (induction accs arbitrary: w futs w') (auto split: prod.splits)

lemma run_futures_run:
  "run_futures E C accs w = (futs, w') \<Longrightarrow>
   \<exists>evs. trace w' = trace w @ evs \<and>
     list_all2 (\<lambda>acc f. case f of Inl e \<Rightarrow> True
                  | Inr (a, s, m) \<Rightarrow> a = acc \<and>
                      (s \<longrightarrow> m = ascii ''SKIP (fastq already downloaded)'' \<or> m = ascii ''OK''))
       accs futs \<and>
     list_all2 (\<lambda>acc (p, t). p = cfg_log_path C \<and> (\<exists>c st lm. t = log_line (strftime c) acc st lm))
       (map fst (filter (\<lambda>(acc, f). \<not> isl f) (zip accs futs))) (log_records evs)"
proof (induction accs arbitrary: w futs w')
  case Nil
  then show ?case by (simp add: log_records_def)
next
  case (Cons acc accs)
  let ?p = "process_one_accession E acc (cfg_out_dir C) (cfg_tmp_dir C) (cfg_sra_dir C)
             (cfg_threads C) (cfg_dry_run C) (cfg_delete_tmp_after C) (cfg_delete_sra_after C)
             (cfg_log_path C)"
  obtain r w1 where p: "?p w = (r, w1)" by fastforce
  obtain rs w2 where rf: "run_futures E C accs w1 = (rs, w2)" by fastforce
  from Cons.prems p rf have fw: "futs = r # rs" "w' = w2" by simp_all
  from pipeline_outcome [OF p] obtain evs1 where
    t1: "trace w1 = trace w @ evs1" and
    c1: "case r of
        Inl e \<Rightarrow> log_records evs1 = []
      | Inr (a, s, m) \<Rightarrow> a = acc \<and>
          (\<exists>c st lm. log_records evs1 = [(cfg_log_path C, log_line (strftime c) acc st lm)]) \<and>
          (s \<longrightarrow> m = ascii ''SKIP (fastq already downloaded)'' \<or> m = ascii ''OK'')" by blast
  from Cons.IH [OF rf] obtain evs2 where
    t2: "trace w2 = trace w1 @ evs2" and
    a2: "list_all2 (\<lambda>acc f. case f of Inl e \<Rightarrow> True
                  | Inr (a, s, m) \<Rightarrow> a = acc \<and>
                      (s \<longrightarrow> m = ascii ''SKIP (fastq already downloaded)'' \<or> m = ascii ''OK''))
       accs rs" and
    l2: "list_all2 (\<lambda>acc (p, t). p = cfg_log_path C \<and> (\<exists>c st lm. t = log_line (strftime c) acc st lm))
       (map fst (filter (\<lambda>(acc, f). \<not> isl f) (zip accs rs))) (log_records evs2)" by blast
  show ?case
  proof (cases r)
    case (Inl e)
    with c1 have "log_records evs1 = []" by simp
    with t1 t2 a2 l2 fw Inl show ?thesis
      by (intro exI [of _ "evs1 @ evs2"]) (simp add: log_records_append)
  next
    case (Inr out)
    obtain a s m where out: "out = (a, s, m)" by (cases out)
    from c1 obtain c st lm where "a = acc"
      "log_records evs1 = [(cfg_log_path C, log_line (strftime c) acc st lm)]"
      "s \<longrightarrow> m = ascii ''SKIP (fastq already downloaded)'' \<or> m = ascii ''OK''"
      unfolding Inr out by auto
    with t1 t2 a2 l2 fw Inr out show ?thesis
      by (intro exI [of _ "evs1 @ evs2"]) (auto simp: log_records_append)
  qed
qed

lemma collect_run:
  "collect futs ok failed w = (r, w') \<Longrightarrow>
   (\<exists>evs. trace w' = trace w @ evs \<and> log_records evs = []) \<and>
   (case r of
      Inl e \<Rightarrow> Inl e \<in> set futs
    | Inr (ok', failed') \<Rightarrow>
        list_all (\<lambda>f. \<not> isl f) futs \<and>
        ok' = ok + length (filter (\<lambda>(a, s, m). s) (map projr futs)) \<and>
        failed' = failed + length (filter (\<lambda>(a, s, m). \<not> s) (map projr futs)))"
proof (induction futs ok failed arbitrary: w rule: collect.induct)
  case (1 ok failed)
  then show ?case by (auto simp: io_return_def log_records_def)
next
  case (2 e futs ok failed)
  then show ?case by (auto simp: io_raise_def log_records_def)
next
  case (3 acc success msg futs ok failed)
  show ?case
  proof (cases success)
    case True
    let ?w1 = "emit (Print (acc @ ascii '': '' @ msg)) w"
    from "3.prems" True have c: "collect futs (ok + 1) failed ?w1 = (r, w')"
      by (simp add: io_bind_def print_line_def)
    from "3.IH"(1) [OF True c] obtain evs where
      e: "trace w' = trace ?w1 @ evs" "log_records evs = []" and
      k: "case r of
      Inl e \<Rightarrow> Inl e \<in> set futs
    | Inr (ok', failed') \<Rightarrow>
        list_all (\<lambda>f. \<not> isl f) futs \<and>
        ok' = (ok + 1) + length (filter (\<lambda>(a, s, m). s) (map projr futs)) \<and>
        failed' = failed + length (filter (\<lambda>(a, s, m). \<not> s) (map projr futs))" by blast
    have "trace w' = trace w @ (Print (acc @ ascii '': '' @ msg) # evs) \<and>
          log_records (Print (acc @ ascii '': '' @ msg) # evs) = []"
      using e by (simp add: emit_def log_records_def)
    moreover from k True have "case r of
      Inl e \<Rightarrow> Inl e \<in> set (Inr (acc, success, msg) # futs)
    | Inr (ok', failed') \<Rightarrow>
        list_all (\<lambda>f. \<not> isl f) (Inr (acc, success, msg) # futs) \<and>
        ok' = ok + length (filter (\<lambda>(a, s, m). s) (map projr (Inr (acc, success, msg) # futs))) \<and>
        failed' = failed + length (filter (\<lambda>(a, s, m). \<not> s) (map projr (Inr (acc, success, msg) # futs)))"
      by (cases r) (auto split: prod.splits)
    ultimately show ?thesis by blast
  next
    case False
    let ?w1 = "emit (Print (acc @ ascii '': FAILED - '' @ msg)) w"
    from "3.prems" False have c: "collect futs ok (failed + 1) ?w1 = (r, w')"
      by (simp add: io_bind_def print_line_def)
    from "3.IH"(2) [OF False c] obtain evs where
      e: "trace w' = trace ?w1 @ evs" "log_records evs = []" and
      k: "case r of
      Inl e \<Rightarrow> Inl e \<in> set futs
    | Inr (ok', failed') \<Rightarrow>
        list_all (\<lambda>f. \<not> isl f) futs \<and>
        ok' = ok + length (filter (\<lambda>(a, s, m). s) (map projr futs)) \<and>
        failed' = (failed + 1) + length (filter (\<lambda>(a, s, m). \<not> s) (map projr futs))" by blast
    have "trace w' = trace w @ (Print (acc @ ascii '': FAILED - '' @ msg) # evs) \<and>
          log_records (Print (acc @ ascii '': FAILED - '' @ msg) # evs) = []"
      using e by (simp add: emit_def log_records_def)
    moreover from k False have "case r of
      Inl e \<Rightarrow> Inl e \<in> set (Inr (acc, success, msg) # futs)
    | Inr (ok', failed') \<Rightarrow>
        list_all (\<lambda>f. \<not> isl f) (Inr (acc, success, msg) # futs) \<and>
        ok' = ok + length (filter (\<lambda>(a, s, m). s) (map projr (Inr (acc, success, msg) # futs))) \<and>
        failed' = failed + length (filter (\<lambda>(a, s, m). \<not> s) (map projr (Inr (acc, success, msg) # futs)))"
      by (cases r) (auto split: prod.splits)
    ultimately show ?thesis by blast
  qed
qed

lemma filter_flag_total:
  "length (filter (\<lambda>(a, s, m). s) outs) + length (filter (\<lambda>(a, s, m). \<not> s) outs) = length outs"
  by (induction outs) auto


lemma zip_all_returned:
  "list_all (\<lambda>f. \<not> isl f) futs \<Longrightarrow> filter (\<lambda>(acc, f). \<not> isl f) (zip accs futs) = zip accs futs"
  by (induction futs arbitrary: accs) (auto simp: zip_Cons split: list.splits)

text \<open>
  Two example runs of the scheduler on the single accession \<open>SRR1\<close>: one with the log
  path a directory, one with the output already there and a log that can be written.
\<close>

lemma scheduler_log_directory_run:
  "fst (scheduler (tool 0 []) cfg_small [ascii ''SRR1''] (world_of [(False, [ascii ''l'']) \<mapsto> Dir]))
     = Inl (OSError EISDIR (ascii ''l'')) \<and>
   log_records (new_events (world_of [(False, [ascii ''l'']) \<mapsto> Dir])
     (snd (scheduler (tool 0 []) cfg_small [ascii ''SRR1'']
             (world_of [(False, [ascii ''l'']) \<mapsto> Dir])))) = []"
  by (simp add: scheduler_def cfg_small_def run_defs new_events_def log_records_def)

lemma scheduler_done_run:
  "fst (scheduler (tool 0 []) cfg_small [ascii ''SRR1''] (world_of fs_done)) = Inr (1, 0)"
  by (simp add: scheduler_def cfg_small_def run_defs fs_done_def strftime_noon)

text \<open>
  Claim C3, as stated, fails: for an input of size one whose log cannot be written, the
  scheduler collects no outcome (\<open>fut.result()\<close> raises) and no record is appended.
\<close>

theorem scheduler_loses_outcome_when_log_fails:
  "\<not> (\<exists>ok failed.
        fst (scheduler (tool 0 []) cfg_small [ascii ''SRR1'']
               (world_of [(False, [ascii ''l'']) \<mapsto> Dir])) = Inr (ok, failed)) \<and>
   length (log_records (new_events (world_of [(False, [ascii ''l'']) \<mapsto> Dir])
     (snd (scheduler (tool 0 []) cfg_small [ascii ''SRR1'']
             (world_of [(False, [ascii ''l'']) \<mapsto> Dir]))))) \<noteq> length [ascii ''SRR1'']"
  by (simp add: scheduler_log_directory_run)

text \<open>
  Claim C3, amended. The executor runs one pipeline per accession of the list and keeps one
  future for each. A pipeline that returns leaves the tuple of its accession and has
  appended exactly one record, for that accession, to the log; a pipeline that raises (its
  log write failed) has appended none. When no pipeline raises, the scheduler collects a
  tuple for every accession (the two counters add up to the length of the list) and the
  log has gained exactly as many records; otherwise the loop ends with the exception of one
  of the pipelines.
\<close>

theorem scheduler_accounting:
  "0 < cfg_jobs C \<longrightarrow> scheduler E C accs w = (r, w') \<longrightarrow>
   (\<exists>futs w1. run_futures E C accs w = (futs, w1) \<and> length futs = length accs \<and>
      list_all2 (\<lambda>acc f. case f of Inl e \<Rightarrow> True | Inr (a, s, m) \<Rightarrow> a = acc) accs futs \<and>
      list_all2 (\<lambda>acc (p, t). p = cfg_log_path C \<and>
                    (\<exists>c st lm. t = log_line (strftime c) acc st lm))
        (map fst (filter (\<lambda>(acc, f). \<not> isl f) (zip accs futs)))
        (log_records (new_events w w')) \<and>
      (case r of
         Inl e \<Rightarrow> Inl e \<in> set futs
       | Inr (ok, failed) \<Rightarrow>
           list_all (\<lambda>f. \<not> isl f) futs \<and> ok + failed = length accs \<and>
           length (log_records (new_events w w')) = length accs))"
proof (intro impI)
  assume j: "0 < cfg_jobs C" and s: "scheduler E C accs w = (r, w')"
  obtain futs w1 where rf: "run_futures E C accs w = (futs, w1)" by fastforce
  from s j rf have c: "collect futs 0 0 w1 = (r, w')" by (simp add: scheduler_def)
  from run_futures_length [OF rf] have len: "length futs = length accs" .
  from run_futures_run [OF rf] obtain evs1 where
    t1: "trace w1 = trace w @ evs1" and
    a1: "list_all2 (\<lambda>acc f. case f of Inl e \<Rightarrow> True
                  | Inr (a, s, m) \<Rightarrow> a = acc \<and>
                      (s \<longrightarrow> m = ascii ''SKIP (fastq already downloaded)'' \<or> m = ascii ''OK''))
       accs futs" and
    l1: "list_all2 (\<lambda>acc (p, t). p = cfg_log_path C \<and> (\<exists>c st lm. t = log_line (strftime c) acc st lm))
       (map fst (filter (\<lambda>(acc, f). \<not> isl f) (zip accs futs))) (log_records evs1)" by blast
  from collect_run [OF c] obtain evs2 where
    t2: "trace w' = trace w1 @ evs2" "log_records evs2 = []" and
    k: "case r of
      Inl e \<Rightarrow> Inl e \<in> set futs
    | Inr (ok', failed') \<Rightarrow>
        list_all (\<lambda>f. \<not> isl f) futs \<and>
        ok' = 0 + length (filter (\<lambda>(a, s, m). s) (map projr futs)) \<and>
        failed' = 0 + length (filter (\<lambda>(a, s, m). \<not> s) (map projr futs))" by blast
  have ne: "log_records (new_events w w') = log_records evs1"
    using t1 t2 by (simp add: new_events_def log_records_append)
  have a: "list_all2 (\<lambda>acc f. case f of Inl e \<Rightarrow> True | Inr (a, s, m) \<Rightarrow> a = acc) accs futs"
    using a1 by (rule list_all2_mono) (auto split: sum.splits)
  have "case r of
         Inl e \<Rightarrow> Inl e \<in> set futs
       | Inr (ok, failed) \<Rightarrow>
           list_all (\<lambda>f. \<not> isl f) futs \<and> ok + failed = length accs \<and>
           length (log_records (new_events w w')) = length accs"
  proof (cases r)
    case (Inl e)
    with k show ?thesis by simp
  next
    case (Inr p)
    obtain ok failed where p: "p = (ok, failed)" by (cases p)
    from k have all: "list_all (\<lambda>f. \<not> isl f) futs"
      and ok: "ok = length (filter (\<lambda>(a, s, m). s) (map projr futs))"
      and failed: "failed = length (filter (\<lambda>(a, s, m). \<not> s) (map projr futs))"
      unfolding Inr p by simp_all
    have "ok + failed = length accs"
      using ok failed filter_flag_total [of "map projr futs"] len by simp
    moreover have "length (log_records evs1) = length accs"
      using list_all2_lengthD [OF l1] zip_all_returned [OF all, of accs] len by simp
    ultimately show ?thesis using all ne unfolding Inr p by simp
  qed
  with rf len a l1 ne show "\<exists>futs w1. run_futures E C accs w = (futs, w1) \<and> length futs = length accs \<and>
      list_all2 (\<lambda>acc f. case f of Inl e \<Rightarrow> True | Inr (a, s, m) \<Rightarrow> a = acc) accs futs \<and>
      list_all2 (\<lambda>acc (p, t). p = cfg_log_path C \<and>
                    (\<exists>c st lm. t = log_line (strftime c) acc st lm))
        (map fst (filter (\<lambda>(acc, f). \<not> isl f) (zip accs futs)))
        (log_records (new_events w w')) \<and>
      (case r of
         Inl e \<Rightarrow> Inl e \<in> set futs
       | Inr (ok, failed) \<Rightarrow>
           list_all (\<lambda>f. \<not> isl f) futs \<and> ok + failed = length accs \<and>
           length (log_records (new_events w w')) = length accs)"
    by simp
qed

theorem scheduler_accounting_witness:
  "0 < cfg_jobs cfg_small \<and>
   length (log_records (new_events (world_of fs_done)
     (snd (scheduler (tool 0 []) cfg_small [ascii ''SRR1''] (world_of fs_done))))) = 1"
proof -
  let ?w = "world_of fs_done"
  let ?s = "scheduler (tool 0 []) cfg_small [ascii ''SRR1'']"
  have j: "0 < cfg_jobs cfg_small" by (simp add: cfg_small_def)
  have r: "?s ?w = (Inr (1, 0), snd (?s ?w))"
    using scheduler_done_run by (metis prod.collapse)
  from scheduler_accounting [where C = cfg_small and E = "tool 0 []" and accs = "[ascii ''SRR1'']"
      and w = ?w and r = "Inr (1, 0)" and w' = "snd (?s ?w)"] j r
  have "length (log_records (new_events ?w (snd (?s ?w)))) = length [ascii ''SRR1'']"
    by auto
  with j show ?thesis by simp
qed

subsection \<open>The summary\<close>










subsection \<open>Validation of accessions\<close>

text \<open>
  Claim C6. The decision of the validation loop on a raw token is the pattern applied to
  the stripped, upper-cased token, and the pattern agrees with the grammar
  \<open>^(SRR|ERR|DRR)[0-9]+$\<close> on every token in which the class \<open>\d\<close> holds exactly the
  ASCII digits. It does not agree in general: in a \<open>str\<close> pattern \<open>\d\<close> is every
  Unicode decimal digit, so with ARABIC-INDIC DIGIT THREE (U+0663, code point 1635) in that
  class the token \<open>SRR\<close> followed by U+0663 is accepted by the code and is not in the
  grammar.
\<close>

theorem validator_accepts_other_digits:
  "(isdecimal U 1635 \<longrightarrow>
      validate_accessions U (ascii ''SRR'' @ [1635]) \<and>
      \<not> accession_grammar (ascii ''SRR'' @ [1635])) \<and>
   ((\<forall>c \<in> set acc. isdecimal U c \<longleftrightarrow> 48 \<le> c \<and> c \<le> 57) \<longrightarrow>
      validate_accessions U acc = accession_grammar acc) \<and>
   accepts U raw = validate_accessions U (upper U (strip U raw))"
proof (intro conjI impI)
  assume "isdecimal U 1635"
  then show "validate_accessions U (ascii ''SRR'' @ [1635])"
    by (simp add: validate_accessions_def ascii_def)
  show "\<not> accession_grammar (ascii ''SRR'' @ [1635])"
    by (simp add: accession_grammar_def ascii_def)
next
  assume h: "\<forall>c \<in> set acc. isdecimal U c \<longleftrightarrow> 48 \<le> c \<and> c \<le> 57"
  have "list_all (isdecimal U) (drop n acc) = list_all (\<lambda>c. 48 \<le> c \<and> c \<le> 57) (drop n acc)" for n
    using h by (auto simp: list_all_iff dest: in_set_dropD)
  then show "validate_accessions U acc = accession_grammar acc"
    by (simp add: validate_accessions_def accession_grammar_def)
next
  show "accepts U raw = validate_accessions U (upper U (strip U raw))"
    by (simp add: accepts_def)
qed

theorem validator_accepts_other_digits_witness:
  "accepts ucd_fragment (ascii ''SRR'' @ [1635]) \<and>
   \<not> accession_grammar (upper ucd_fragment (strip ucd_fragment (ascii ''SRR'' @ [1635]))) \<and>
   validate_accessions ucd_fragment (ascii ''SRR12'') = accession_grammar (ascii ''SRR12'')"
proof -
  have d: "isdecimal ucd_fragment 1635" by (simp add: ucd_fragment_def)
  have n: "upper ucd_fragment (strip ucd_fragment (ascii ''SRR'' @ [1635])) = ascii ''SRR'' @ [1635]"
    by (simp add: ucd_fragment_def strip_def ascii_def)
  have a: "\<forall>c \<in> set (ascii ''SRR12''). isdecimal ucd_fragment c \<longleftrightarrow> 48 \<le> c \<and> c \<le> 57"
    by (simp add: ucd_fragment_def ascii_def)
  from validator_accepts_other_digits
         [where U = ucd_fragment and raw = "ascii ''SRR'' @ [1635]" and acc = "ascii ''SRR12''"]
       d a n
  show ?thesis by simp
qed

subsection \<open>The conversion step\<close>

lemma os_makedirs_ok:
  assumes "os_makedirs s w = (Inr u, w1)"
  shows "stat (files w1) s = Inr Dir" and "trace w1 = trace w @ [MakeDirs s]"
    and "clock w1 = clock w"
    and "stat (files w) p = Inr x \<Longrightarrow> stat (files w1) p = Inr x"
proof -
  from assms obtain fs1 where mk: "makedirs (files w) s = (Inr (), fs1)"
    and w1: "w1 = emit (MakeDirs s) (w\<lparr>files := fs1\<rparr>)"
    by (auto simp: os_makedirs_def split: prod.splits sum.splits)
  from makedirs_mkdirs [OF mk] have ne: "s \<noteq> []"
    and m: "mkdirs (files w) (fst (resolve s)) [] (snd (resolve s)) = Inr fs1"
    by simp_all
  from mkdirs_makes_dir [OF m] ne w1 show "stat (files w1) s = Inr Dir"
    by (simp add: stat_Dir emit_def)
  from w1 show "trace w1 = trace w @ [MakeDirs s]" "clock w1 = clock w"
    by (simp_all add: emit_def)
  assume p: "stat (files w) p = Inr x"
  then obtain y where
    y: "walk (files w) (fst (resolve p)) [] (snd (resolve p)) = Inr y"
    by (auto simp: stat_def split: if_splits sum.splits)
  from mkdirs_keeps_walk [OF m y]
  have "walk fs1 (fst (resolve p)) [] (snd (resolve p)) =
        walk (files w) (fst (resolve p)) [] (snd (resolve p))" using y by simp
  then have "stat fs1 p = stat (files w) p" by (simp add: stat_def)
  with p w1 show "stat (files w1) p = Inr x" by (simp add: emit_def)
qed

lemma os_makedirs_err:
  assumes "os_makedirs s w = (Inl e, w1)"
  shows "w1 = w" and "\<exists>k f. e = OSError k f"
proof -
  from assms obtain fs1 where mk: "makedirs (files w) s = (Inl e, fs1)"
    and w1: "w1 = w\<lparr>files := fs1\<rparr>"
    by (auto simp: os_makedirs_def split: prod.splits sum.splits)
  from makedirs_mkdirs [OF mk] have "fs1 = files w" and k: "\<exists>k f. e = OSError k f"
    by auto
  with w1 show "w1 = w" by simp
  from k show "\<exists>k f. e = OSError k f" .
qed

lemma fasterq_first_fails:
  "os_makedirs (out_dir_acc d acc) w = (Inl e, w0) \<Longrightarrow> fasterq_dump_one E d acc w = (Inl e, w0)"
  by (simp add: fasterq_dump_one_def out_dir_acc_def Let_def io_bind_def)

lemma fasterq_second_fails:
  "os_makedirs (out_dir_acc d acc) w = (Inr u, w1) \<Longrightarrow>
   os_makedirs (tmp_dir_acc d acc) w1 = (Inl e, w0) \<Longrightarrow>
   fasterq_dump_one E d acc w = (Inl e, w0)"
  by (simp add: fasterq_dump_one_def out_dir_acc_def tmp_dir_acc_def Let_def io_bind_def)

lemma fasterq_dry:
  "os_makedirs (out_dir_acc d acc) w = (Inr u, w1) \<Longrightarrow>
   os_makedirs (tmp_dir_acc d acc) w1 = (Inr u', w2) \<Longrightarrow> dry_run d \<Longrightarrow>
   fasterq_dump_one E d acc w =
     (Inr (), w2\<lparr>trace := trace w2 @
        [Print (ascii ''Running: '' @ join (ascii '' '') (fasterq_cmd d acc)),
         Print (ascii ''fasterq-dump successful for '' @ acc)]\<rparr>)"
  by (simp add: fasterq_dump_one_def out_dir_acc_def tmp_dir_acc_def sra_path_def fasterq_cmd_def
      Let_def io_bind_def io_return_def run_command_def print_line_def emit_def)

lemma fasterq_missing:
  "os_makedirs (out_dir_acc d acc) w = (Inr u, w1) \<Longrightarrow>
   os_makedirs (tmp_dir_acc d acc) w1 = (Inr u', w2) \<Longrightarrow> \<not> dry_run d \<Longrightarrow>
   isl (stat (files w2) (sra_path d acc)) \<Longrightarrow>
   fasterq_dump_one E d acc w = (Inl (missing_sra d acc), emit (Exists (sra_path d acc)) w2)"
  by (simp add: fasterq_dump_one_def out_dir_acc_def tmp_dir_acc_def sra_path_def missing_sra_def
      Let_def io_bind_def io_return_def io_raise_def os_path_exists_def)

lemma fasterq_real:
  "os_makedirs (out_dir_acc d acc) w = (Inr u, w1) \<Longrightarrow>
   os_makedirs (tmp_dir_acc d acc) w1 = (Inr u', w2) \<Longrightarrow> \<not> dry_run d \<Longrightarrow>
   \<not> isl (stat (files w2) (sra_path d acc)) \<Longrightarrow>
   fasterq_dump_one E d acc w = (r, w') \<Longrightarrow>
   \<exists>rest. trace w' = trace w2 @
       [Exists (sra_path d acc),
        Print (ascii ''Running: '' @ join (ascii '' '') (fasterq_cmd d acc)),
        Spawn (fasterq_cmd d acc)] @ rest"
  by (auto simp: fasterq_dump_one_def out_dir_acc_def tmp_dir_acc_def sra_path_def fasterq_cmd_def
      Let_def io_bind_def io_return_def io_raise_def os_path_exists_def run_command_def
      print_line_def emit_def subprocess_run_def split: prod.splits sum.splits if_splits)

lemmas dl_defs = dl_real_def dl_dry_def out_dir_acc_def tmp_dir_acc_def sra_path_def
  fasterq_cmd_def missing_sra_def fs_blocked_def fs_tmp_blocked_def

text \<open>
  An example: a real run in which a regular file sits at \<open>o/SRR1\<close>, where the output
  directory should be created, and no archive has been fetched.
\<close>

lemma blocked_real_run:
  "fasterq_dump_one (tool 0 []) dl_real (ascii ''SRR1'') (world_of fs_blocked) =
     (Inl (OSError EEXIST (ascii ''o/SRR1'')), world_of fs_blocked)"
  by (simp add: dl_defs run_defs)

lemma blocked_sra_absent:
  "stat (files (world_of fs_blocked)) (sra_path dl_real (ascii ''SRR1'')) = Inl ENOENT"
  by (simp add: dl_defs run_defs)

text \<open>
  Claim C5, as stated, fails: the run is real and the archive is not on disk, and the
  conversion step raises the error of \<open>os.makedirs\<close>, not the one for the missing
  archive.
\<close>

theorem blocked_output_hides_missing_archive:
  "\<not> dry_run dl_real \<and>
   stat (files (world_of fs_blocked)) (sra_path dl_real (ascii ''SRR1'')) = Inl ENOENT \<and>
   fst (fasterq_dump_one (tool 0 []) dl_real (ascii ''SRR1'') (world_of fs_blocked)) =
     Inl (OSError EEXIST (ascii ''o/SRR1'')) \<and>
   fst (fasterq_dump_one (tool 0 []) dl_real (ascii ''SRR1'') (world_of fs_blocked)) \<noteq>
     Inl (missing_sra dl_real (ascii ''SRR1''))"
  by (simp add: blocked_real_run blocked_sra_absent) (simp add: dl_defs)

text \<open>
  Claim C5, amended. Once the two directories have been created, the conversion step raises
  the error for the missing archive without calling \<open>subprocess.run\<close> if and only if the
  run is real and the archive is not on disk at that moment; in a dry run the check is
  skipped, the command is printed and the step returns. When creating the output directory
  or the working directory fails, the step raises that error of \<open>os.makedirs\<close> instead,
  which is not the error for the missing archive.
\<close>

theorem missing_archive_iff:
  "(os_makedirs (out_dir_acc d acc) w = (Inr (), wa) \<longrightarrow>
    os_makedirs (tmp_dir_acc d acc) wa = (Inr (), wb) \<longrightarrow>
    fasterq_dump_one E d acc w = (r, w') \<longrightarrow>
      ((r = Inl (missing_sra d acc) \<and> list_all (\<lambda>e. \<not> is_spawn e) (new_events w w')) \<longleftrightarrow>
         (\<not> dry_run d \<and> isl (stat (files wb) (sra_path d acc)))) \<and>
      (dry_run d \<longrightarrow> r = Inr () \<and>
         new_events w w' =
           [MakeDirs (out_dir_acc d acc), MakeDirs (tmp_dir_acc d acc),
            Print (ascii ''Running: '' @ join (ascii '' '') (fasterq_cmd d acc)),
            Print (ascii ''fasterq-dump successful for '' @ acc)])) \<and>
   (os_makedirs (out_dir_acc d acc) v = (Inl e, vz) \<longrightarrow>
      fasterq_dump_one E d acc v = (Inl e, vz) \<and> e \<noteq> missing_sra d acc) \<and>
   (os_makedirs (out_dir_acc d acc) x = (Inr (), xa) \<longrightarrow>
    os_makedirs (tmp_dir_acc d acc) xa = (Inl e', xz) \<longrightarrow>
      fasterq_dump_one E d acc x = (Inl e', xz) \<and> e' \<noteq> missing_sra d acc)"
proof (intro conjI impI)
  assume m1: "os_makedirs (out_dir_acc d acc) w = (Inr (), wa)"
    and m2: "os_makedirs (tmp_dir_acc d acc) wa = (Inr (), wb)"
    and f: "fasterq_dump_one E d acc w = (r, w')"
  have t2: "trace wb = trace w @ [MakeDirs (out_dir_acc d acc), MakeDirs (tmp_dir_acc d acc)]"
    using os_makedirs_ok(2) [OF m1] os_makedirs_ok(2) [OF m2] by simp
  show "(r = Inl (missing_sra d acc) \<and> list_all (\<lambda>e. \<not> is_spawn e) (new_events w w')) \<longleftrightarrow>
         (\<not> dry_run d \<and> isl (stat (files wb) (sra_path d acc)))"
  proof (cases "dry_run d")
    case True
    from fasterq_dry [OF m1 m2 True, of E] f have "r = Inr ()" by simp
    with True show ?thesis by simp
  next
    case False
    show ?thesis
    proof (cases "isl (stat (files wb) (sra_path d acc))")
      case True
      from fasterq_missing [OF m1 m2 False True, of E] f
      have "r = Inl (missing_sra d acc)" "w' = emit (Exists (sra_path d acc)) wb" by simp_all
      with t2 False True show ?thesis by (simp add: new_events_def emit_def)
    next
      case nl: False
      from fasterq_real [OF m1 m2 False nl f] obtain rest where
        "trace w' = trace wb @
          [Exists (sra_path d acc),
           Print (ascii ''Running: '' @ join (ascii '' '') (fasterq_cmd d acc)),
           Spawn (fasterq_cmd d acc)] @ rest" by blast
      with t2 have "\<not> list_all (\<lambda>e. \<not> is_spawn e) (new_events w w')"
        by (simp add: new_events_def)
      with nl show ?thesis by simp
    qed
  qed
  assume dry: "dry_run d"
  from fasterq_dry [OF m1 m2 dry, of E] f t2
  show "r = Inr ()"
    "new_events w w' =
           [MakeDirs (out_dir_acc d acc), MakeDirs (tmp_dir_acc d acc),
            Print (ascii ''Running: '' @ join (ascii '' '') (fasterq_cmd d acc)),
            Print (ascii ''fasterq-dump successful for '' @ acc)]"
    by (auto simp: new_events_def)
next
  assume m: "os_makedirs (out_dir_acc d acc) v = (Inl e, vz)"
  from fasterq_first_fails [OF m] show "fasterq_dump_one E d acc v = (Inl e, vz)" .
  from os_makedirs_err [OF m] show "e \<noteq> missing_sra d acc" by (auto simp: missing_sra_def)
next
  assume m1: "os_makedirs (out_dir_acc d acc) x = (Inr (), xa)"
    and m2: "os_makedirs (tmp_dir_acc d acc) xa = (Inl e', xz)"
  from fasterq_second_fails [OF m1 m2] show "fasterq_dump_one E d acc x = (Inl e', xz)" .
  from os_makedirs_err [OF m2] show "e' \<noteq> missing_sra d acc" by (auto simp: missing_sra_def)
qed

lemma empty_makedirs:
  "fst (os_makedirs (out_dir_acc dl_real (ascii ''SRR1'')) (world_of Map.empty)) = Inr ()"
  "fst (os_makedirs (tmp_dir_acc dl_real (ascii ''SRR1''))
          (snd (os_makedirs (out_dir_acc dl_real (ascii ''SRR1'')) (world_of Map.empty)))) = Inr ()"
  "isl (stat (files (snd (os_makedirs (tmp_dir_acc dl_real (ascii ''SRR1''))
          (snd (os_makedirs (out_dir_acc dl_real (ascii ''SRR1'')) (world_of Map.empty))))))
        (sra_path dl_real (ascii ''SRR1'')))"
  by (simp_all add: dl_defs run_defs)

lemma blocked_makedirs:
  "os_makedirs (out_dir_acc dl_real (ascii ''SRR1'')) (world_of fs_blocked) =
     (Inl (OSError EEXIST (ascii ''o/SRR1'')), world_of fs_blocked)"
  by (simp add: dl_defs run_defs)

lemma tmp_blocked_makedirs:
  "fst (os_makedirs (out_dir_acc dl_real (ascii ''SRR1'')) (world_of fs_tmp_blocked)) = Inr ()"
  "fst (os_makedirs (tmp_dir_acc dl_real (ascii ''SRR1''))
          (snd (os_makedirs (out_dir_acc dl_real (ascii ''SRR1'')) (world_of fs_tmp_blocked)))) =
     Inl (OSError ENOTDIR (ascii ''t/SRR1''))"
  by (simp_all add: dl_defs run_defs)

theorem missing_archive_iff_witness:
  "fst (fasterq_dump_one (tool 0 []) dl_real (ascii ''SRR1'') (world_of Map.empty)) =
     Inl (missing_sra dl_real (ascii ''SRR1'')) \<and>
   fst (fasterq_dump_one (tool 0 []) dl_real (ascii ''SRR1'') (world_of fs_blocked)) =
     Inl (OSError EEXIST (ascii ''o/SRR1'')) \<and>
   fst (fasterq_dump_one (tool 0 []) dl_real (ascii ''SRR1'') (world_of fs_tmp_blocked)) =
     Inl (OSError ENOTDIR (ascii ''t/SRR1''))"
proof (intro conjI)
  let ?w = "world_of Map.empty"
  let ?wa = "snd (os_makedirs (out_dir_acc dl_real (ascii ''SRR1'')) ?w)"
  let ?wb = "snd (os_makedirs (tmp_dir_acc dl_real (ascii ''SRR1'')) ?wa)"
  let ?f = "fasterq_dump_one (tool 0 []) dl_real (ascii ''SRR1'')"
  have m1: "os_makedirs (out_dir_acc dl_real (ascii ''SRR1'')) ?w = (Inr (), ?wa)"
    by (rule prod_eqI) (simp_all add: empty_makedirs(1))
  have m2: "os_makedirs (tmp_dir_acc dl_real (ascii ''SRR1'')) ?wa = (Inr (), ?wb)"
    by (rule prod_eqI) (simp_all add: empty_makedirs(2))
  have f: "?f ?w = (fst (?f ?w), snd (?f ?w))" by simp
  have nd: "\<not> dry_run dl_real" by (simp add: dl_real_def)
  note th = missing_archive_iff [where d = dl_real and acc = "ascii ''SRR1''" and w = ?w
      and wa = ?wa and wb = ?wb and E = "tool 0 []" and r = "fst (?f ?w)" and w' = "snd (?f ?w)",
      THEN conjunct1, rule_format, OF m1 m2 f, THEN conjunct1]
  from th nd empty_makedirs(3)
  show "fst (?f ?w) = Inl (missing_sra dl_real (ascii ''SRR1''))" by simp
next
  let ?v = "world_of fs_blocked"
  note th = missing_archive_iff [where d = dl_real and acc = "ascii ''SRR1''" and v = ?v
      and vz = ?v and e = "OSError EEXIST (ascii ''o/SRR1'')" and E = "tool 0 []",
      THEN conjunct2, THEN conjunct1, rule_format, OF blocked_makedirs, THEN conjunct1]
  then show "fst (fasterq_dump_one (tool 0 []) dl_real (ascii ''SRR1'') ?v) =
     Inl (OSError EEXIST (ascii ''o/SRR1''))" by simp
next
  let ?x = "world_of fs_tmp_blocked"
  let ?xa = "snd (os_makedirs (out_dir_acc dl_real (ascii ''SRR1'')) ?x)"
  let ?xz = "snd (os_makedirs (tmp_dir_acc dl_real (ascii ''SRR1'')) ?xa)"
  have m1: "os_makedirs (out_dir_acc dl_real (ascii ''SRR1'')) ?x = (Inr (), ?xa)"
    by (rule prod_eqI) (simp_all add: tmp_blocked_makedirs(1))
  have m2: "os_makedirs (tmp_dir_acc dl_real (ascii ''SRR1'')) ?xa =
              (Inl (OSError ENOTDIR (ascii ''t/SRR1'')), ?xz)"
    by (rule prod_eqI) (simp_all add: tmp_blocked_makedirs(2))
  note th = missing_archive_iff [where d = dl_real and acc = "ascii ''SRR1''" and x = ?x
      and xa = ?xa and xz = ?xz and e' = "OSError ENOTDIR (ascii ''t/SRR1'')"
      and E = "tool 0 []", THEN conjunct2, THEN conjunct2, rule_format, OF m1 m2, THEN conjunct1]
  then show "fst (fasterq_dump_one (tool 0 []) dl_real (ascii ''SRR1'') ?x) =
     Inl (OSError ENOTDIR (ascii ''t/SRR1''))" by simp
qed

subsection \<open>Directories made by the conversion step\<close>

text \<open>
  The same blocked output directory, in a dry run.
\<close>

lemma blocked_dry_run:
  "fasterq_dump_one (tool 0 []) dl_dry (ascii ''SRR1'') (world_of fs_blocked) =
     (Inl (OSError EEXIST (ascii ''o/SRR1'')), world_of fs_blocked)"
  by (simp add: dl_defs run_defs)

text \<open>
  Claim C10, as stated, fails: this dry run ends with the error of \<open>os.makedirs\<close> and
  leaves no output directory (a regular file is at its path) and no working directory.
\<close>

theorem dry_run_without_directories:
  "dry_run dl_dry \<and>
   fst (fasterq_dump_one (tool 0 []) dl_dry (ascii ''SRR1'') (world_of fs_blocked)) =
     Inl (OSError EEXIST (ascii ''o/SRR1'')) \<and>
   stat (files (snd (fasterq_dump_one (tool 0 []) dl_dry (ascii ''SRR1'') (world_of fs_blocked))))
     (out_dir_acc dl_dry (ascii ''SRR1'')) = Inr (File (ascii ''x'')) \<and>
   stat (files (snd (fasterq_dump_one (tool 0 []) dl_dry (ascii ''SRR1'') (world_of fs_blocked))))
     (tmp_dir_acc dl_dry (ascii ''SRR1'')) = Inl ENOENT"
  by (simp add: blocked_dry_run) (simp add: dl_defs run_defs)

text \<open>
  Claim C10, amended. What the conversion step adds to the trace begins with the creation
  of the output directory and then of the working directory, before any check of the
  archive and before the command is printed or run, in both modes; otherwise the step has
  ended with the error that the first or the second \<open>os.makedirs\<close> raised, in the state
  in which that call ended, and has done nothing else. A step that ends with the error for
  the missing archive without having run a command, and a dry run that returns, leave both
  directories on disk; the dry run has only printed the command.
\<close>

theorem directories_before_conversion:
  "fasterq_dump_one E d acc w = (r, w') \<longrightarrow>
     (prefix [MakeDirs (out_dir_acc d acc), MakeDirs (tmp_dir_acc d acc)] (new_events w w') \<or>
      (\<exists>e. os_makedirs (out_dir_acc d acc) w = (Inl e, w') \<and> r = Inl e \<and>
           new_events w w' = []) \<or>
      (\<exists>e wa. os_makedirs (out_dir_acc d acc) w = (Inr (), wa) \<and>
           os_makedirs (tmp_dir_acc d acc) wa = (Inl e, w') \<and> r = Inl e \<and>
           new_events w w' = [MakeDirs (out_dir_acc d acc)])) \<and>
     (r = Inl (missing_sra d acc) \<and> list_all (\<lambda>e. \<not> is_spawn e) (new_events w w') \<longrightarrow>
        stat (files w') (out_dir_acc d acc) = Inr Dir \<and>
        stat (files w') (tmp_dir_acc d acc) = Inr Dir) \<and>
     (dry_run d \<and> r = Inr () \<longrightarrow>
        stat (files w') (out_dir_acc d acc) = Inr Dir \<and>
        stat (files w') (tmp_dir_acc d acc) = Inr Dir \<and>
        new_events w w' =
          [MakeDirs (out_dir_acc d acc), MakeDirs (tmp_dir_acc d acc),
           Print (ascii ''Running: '' @ join (ascii '' '') (fasterq_cmd d acc)),
           Print (ascii ''fasterq-dump successful for '' @ acc)])"
proof
  let ?out = "out_dir_acc d acc" and ?tmp = "tmp_dir_acc d acc"
  let ?goal = "(prefix [MakeDirs ?out, MakeDirs ?tmp] (new_events w w') \<or>
      (\<exists>e. os_makedirs ?out w = (Inl e, w') \<and> r = Inl e \<and> new_events w w' = []) \<or>
      (\<exists>e wa. os_makedirs ?out w = (Inr (), wa) \<and> os_makedirs ?tmp wa = (Inl e, w') \<and>
           r = Inl e \<and> new_events w w' = [MakeDirs ?out])) \<and>
     (r = Inl (missing_sra d acc) \<and> list_all (\<lambda>e. \<not> is_spawn e) (new_events w w') \<longrightarrow>
        stat (files w') ?out = Inr Dir \<and> stat (files w') ?tmp = Inr Dir) \<and>
     (dry_run d \<and> r = Inr () \<longrightarrow>
        stat (files w') ?out = Inr Dir \<and> stat (files w') ?tmp = Inr Dir \<and>
        new_events w w' =
          [MakeDirs ?out, MakeDirs ?tmp,
           Print (ascii ''Running: '' @ join (ascii '' '') (fasterq_cmd d acc)),
           Print (ascii ''fasterq-dump successful for '' @ acc)])"
  assume f: "fasterq_dump_one E d acc w = (r, w')"
  obtain ra wa where m1: "os_makedirs ?out w = (ra, wa)" by fastforce
  show ?goal
  proof (cases ra)
    case (Inl e)
    with m1 have m: "os_makedirs ?out w = (Inl e, wa)" by simp
    from os_makedirs_err [OF m] obtain k g where k: "wa = w" "e = OSError k g" by auto
    from fasterq_first_fails [OF m, of E] f have rw: "r = Inl e" "w' = wa" by simp_all
    from m rw have "os_makedirs ?out w = (Inl e, w') \<and> r = Inl e" by simp
    moreover from rw k have "new_events w w' = []" by (simp add: new_events_def)
    moreover from rw k have "r \<noteq> Inl (missing_sra d acc)" "r \<noteq> Inr ()"
      by (simp_all add: missing_sra_def)
    ultimately show ?thesis by blast
  next
    case (Inr u)
    with m1 have m1: "os_makedirs ?out w = (Inr (), wa)" by simp
    obtain rb wb where m2: "os_makedirs ?tmp wa = (rb, wb)" by fastforce
    show ?thesis
    proof (cases rb)
      case (Inl e)
      with m2 have m: "os_makedirs ?tmp wa = (Inl e, wb)" by simp
      from os_makedirs_err [OF m] obtain k g where k: "wb = wa" "e = OSError k g" by auto
      from fasterq_second_fails [OF m1 m, of E] f have rw: "r = Inl e" "w' = wb" by simp_all
      from m1 m rw have "os_makedirs ?out w = (Inr (), wa) \<and>
          os_makedirs ?tmp wa = (Inl e, w') \<and> r = Inl e" by simp
      moreover from rw k os_makedirs_ok(2) [OF m1] have "new_events w w' = [MakeDirs ?out]"
        by (simp add: new_events_def)
      moreover from rw k have "r \<noteq> Inl (missing_sra d acc)" "r \<noteq> Inr ()"
        by (simp_all add: missing_sra_def)
      ultimately show ?thesis by blast
    next
      case (Inr u')
      with m2 have m2: "os_makedirs ?tmp wa = (Inr (), wb)" by simp
      have t2: "trace wb = trace w @ [MakeDirs ?out, MakeDirs ?tmp]"
        using os_makedirs_ok(2) [OF m1] os_makedirs_ok(2) [OF m2] by simp
      have dirs: "stat (files wb) ?out = Inr Dir" "stat (files wb) ?tmp = Inr Dir"
        using os_makedirs_ok(4) [OF m2 os_makedirs_ok(1) [OF m1]] os_makedirs_ok(1) [OF m2]
        by simp_all
      show ?thesis
      proof (cases "dry_run d")
        case True
        from fasterq_dry [OF m1 m2 True, of E] f have
          "r = Inr ()"
          "w' = wb\<lparr>trace := trace wb @
             [Print (ascii ''Running: '' @ join (ascii '' '') (fasterq_cmd d acc)),
              Print (ascii ''fasterq-dump successful for '' @ acc)]\<rparr>" by simp_all
        with t2 dirs True show ?thesis by (simp add: new_events_def)
      next
        case False
        show ?thesis
        proof (cases "isl (stat (files wb) (sra_path d acc))")
          case True
          from fasterq_missing [OF m1 m2 False True, of E] f
          have "r = Inl (missing_sra d acc)" "w' = emit (Exists (sra_path d acc)) wb"
            by simp_all
          with t2 dirs False show ?thesis by (simp add: new_events_def emit_def)
        next
          case nl: False
          from fasterq_real [OF m1 m2 False nl f] obtain rest where
            "trace w' = trace wb @
              [Exists (sra_path d acc),
               Print (ascii ''Running: '' @ join (ascii '' '') (fasterq_cmd d acc)),
               Spawn (fasterq_cmd d acc)] @ rest" by blast
          with t2 have "new_events w w' =
              [MakeDirs ?out, MakeDirs ?tmp, Exists (sra_path d acc),
               Print (ascii ''Running: '' @ join (ascii '' '') (fasterq_cmd d acc)),
               Spawn (fasterq_cmd d acc)] @ rest"
            by (simp add: new_events_def)
          with False show ?thesis by simp
        qed
      qed
    qed
  qed
qed

lemma empty_dry_run:
  "fst (fasterq_dump_one (tool 0 []) dl_dry (ascii ''SRR1'') (world_of Map.empty)) = Inr ()"
  "dry_run dl_dry"
  by (simp_all add: dl_defs run_defs)

lemma empty_real_run:
  "fst (fasterq_dump_one (tool 0 []) dl_real (ascii ''SRR1'') (world_of Map.empty)) =
     Inl (missing_sra dl_real (ascii ''SRR1''))"
  "list_all (\<lambda>e. \<not> is_spawn e)
     (new_events (world_of Map.empty)
        (snd (fasterq_dump_one (tool 0 []) dl_real (ascii ''SRR1'') (world_of Map.empty))))"
  by (simp_all add: dl_defs run_defs new_events_def)

theorem directories_before_conversion_witness:
  "stat (files (snd (fasterq_dump_one (tool 0 []) dl_dry (ascii ''SRR1'') (world_of Map.empty))))
     (out_dir_acc dl_dry (ascii ''SRR1'')) = Inr Dir \<and>
   stat (files (snd (fasterq_dump_one (tool 0 []) dl_dry (ascii ''SRR1'') (world_of Map.empty))))
     (tmp_dir_acc dl_dry (ascii ''SRR1'')) = Inr Dir \<and>
   stat (files (snd (fasterq_dump_one (tool 0 []) dl_real (ascii ''SRR1'') (world_of Map.empty))))
     (out_dir_acc dl_real (ascii ''SRR1'')) = Inr Dir \<and>
   stat (files (snd (fasterq_dump_one (tool 0 []) dl_real (ascii ''SRR1'') (world_of Map.empty))))
     (tmp_dir_acc dl_real (ascii ''SRR1'')) = Inr Dir"
proof -
  let ?w = "world_of Map.empty"
  let ?fd = "fasterq_dump_one (tool 0 []) dl_dry (ascii ''SRR1'')"
  let ?fr = "fasterq_dump_one (tool 0 []) dl_real (ascii ''SRR1'')"
  have rd: "?fd ?w = (Inr (), snd (?fd ?w))"
    by (rule prod_eqI) (simp_all add: empty_dry_run(1))
  have rr: "?fr ?w = (Inl (missing_sra dl_real (ascii ''SRR1'')), snd (?fr ?w))"
    by (rule prod_eqI) (simp_all add: empty_real_run(1))
  note td = directories_before_conversion [where E = "tool 0 []" and d = dl_dry
      and acc = "ascii ''SRR1''" and w = ?w and r = "Inr ()" and w' = "snd (?fd ?w)",
      rule_format, OF rd, THEN conjunct2, THEN conjunct2, rule_format]
  note tr = directories_before_conversion [where E = "tool 0 []" and d = dl_real
      and acc = "ascii ''SRR1''" and w = ?w and r = "Inl (missing_sra dl_real (ascii ''SRR1''))"
      and w' = "snd (?fr ?w)",
      rule_format, OF rr, THEN conjunct2, THEN conjunct1, rule_format]
  from td empty_dry_run(2) have
    "stat (files (snd (?fd ?w))) (out_dir_acc dl_dry (ascii ''SRR1'')) = Inr Dir \<and>
     stat (files (snd (?fd ?w))) (tmp_dir_acc dl_dry (ascii ''SRR1'')) = Inr Dir" by simp
  moreover from tr empty_real_run(2) have
    "stat (files (snd (?fr ?w))) (out_dir_acc dl_real (ascii ''SRR1'')) = Inr Dir \<and>
     stat (files (snd (?fr ?w))) (tmp_dir_acc dl_real (ascii ''SRR1'')) = Inr Dir" by simp
  ultimately show ?thesis by simp
qed

end
